theory Spec2Isabelle
  imports Main "HOL-Library.Multiset" "HOL-Library.Multiset_Order"
begin

section \<open>Symbols, strings and rules (src/rewriting/engine.py)\<close>

text \<open>
  A \<open>Symbol\<close> is a frozen dataclass around one Python \<open>str\<close> (its \<open>value\<close>); a
  \<open>String\<close> is a frozen dataclass around a tuple of symbols. Both compare by content, so
  a symbol is modelled by its value and a string by the list of its symbols.
  A \<open>Rule\<close> is a pair of strings; its optional \<open>metadata\<close> dictionary is read by none of
  the functions below and is left out.
\<close>

type_synonym Symbol = string
type_synonym String = "Symbol list"

record Rule =
  left :: String
  right :: String

text \<open>\<open>String.from_str\<close>: one symbol per character of the Python string.\<close>

definition from_str :: "string \<Rightarrow> String" where
  "from_str s = map (\<lambda>c. [c]) s"

text \<open>\<open>String.__str__\<close>: the concatenation of the symbols' values.\<close>

definition str_of :: "String \<Rightarrow> string" where
  "str_of s = concat s"

datatype error = ValueError | IndexError | KeyError

section \<open>Rewriting engine\<close>

text \<open>
  \<open>find_positions\<close>: \<open>for i in range(n - m + 1)\<close>, keeping the \<open>i\<close> with
  \<open>string.symbols[i:i+m] == pattern.symbols\<close>. The bound \<open>n - m + 1\<close> is a Python integer
  and may be zero or negative, in which case the range is empty.
\<close>

definition find_positions :: "String \<Rightarrow> String \<Rightarrow> nat list" where
  "find_positions string pattern =
     (let n = int (length string); m = int (length pattern)
      in filter (\<lambda>i. take (length pattern) (drop i string) = pattern) [0 ..< nat (n - m + 1)])"

text \<open>\<open>apply_rule\<close>: \<open>symbols[:position] + rule.right.symbols + symbols[position + left_len:]\<close>.\<close>

definition apply_rule :: "String \<Rightarrow> Rule \<Rightarrow> nat \<Rightarrow> String" where
  "apply_rule string rule position =
     take position string @ right rule @ drop (position + length (left rule)) string"

text \<open>\<open>all_applications\<close>: rule order first, then position order.\<close>

definition all_applications :: "Rule list \<Rightarrow> String \<Rightarrow> (String \<times> Rule \<times> nat) list" where
  "all_applications rules string =
     concat (map (\<lambda>rule. map (\<lambda>pos. (apply_rule string rule pos, rule, pos))
                             (find_positions string (left rule))) rules)"

text \<open>
  The width cut \<open>if width is not None and len(applications) > width:
  applications = applications[:width]\<close>. A Python slice with a negative bound counts from
  the end.
\<close>

definition py_prefix :: "int \<Rightarrow> 'a list \<Rightarrow> 'a list" where
  "py_prefix w xs = (if 0 \<le> w then take (nat w) xs else take (nat (int (length xs) + w)) xs)"

definition limit_width :: "int option \<Rightarrow> 'a list \<Rightarrow> 'a list" where
  "limit_width width applications =
     (case width of
        None \<Rightarrow> applications
      | Some w \<Rightarrow> if int (length applications) > w then py_prefix w applications
                  else applications)"

subsection \<open>\<open>bounded_reach\<close>\<close>

text \<open>
  The state of the breadth-first loop: the result dictionary \<open>levels\<close>, the set
  \<open>visited\<close> and the FIFO \<open>queue\<close> of (string, level) pairs.
\<close>

record reach_state =
  levels :: "int \<rightharpoonup> String set"
  visited :: "String set"
  queue :: "(String \<times> int) list"

text \<open>
  The body of \<open>for new_string, rule, pos in applications\<close>: an unvisited string is marked,
  put into \<open>levels[level + 1]\<close> (created empty when absent) and enqueued.
\<close>

definition reach_visit :: "int \<Rightarrow> reach_state \<Rightarrow> String \<Rightarrow> reach_state" where
  "reach_visit level st new_string =
     (if new_string \<notin> visited st then
        let next_level = level + 1
        in \<lparr>levels = (levels st)(next_level \<mapsto>
                 insert new_string (case levels st next_level of None \<Rightarrow> {} | Some S \<Rightarrow> S)),
            visited = insert new_string (visited st),
            queue = queue st @ [(new_string, next_level)]\<rparr>
      else st)"

text \<open>
  Termination of the loop: every dequeued entry of level \<open>l < depth\<close> is replaced by entries
  of level \<open>l + 1\<close>, so the multiset of the remaining depths \<open>depth - l\<close> over the queue
  decreases in the multiset order.
\<close>

definition queue_weight :: "int \<Rightarrow> int list \<Rightarrow> nat multiset" where
  "queue_weight depth ls = mset (map (\<lambda>l. nat (depth - l)) ls)"

lemma queue_reach_visit:
  "queue (reach_visit level st x)
     = (if x \<in> visited st then queue st else queue st @ [(x, level + 1)])"
  by (simp add: reach_visit_def Let_def)

lemma queue_foldl_reach_visit:
  "\<exists>n. map snd (queue (foldl (reach_visit level) st xs))
         = map snd (queue st) @ replicate n (level + 1)"
proof (induction xs arbitrary: st)
  case Nil
  show ?case by (rule exI [of _ 0]) simp
next
  case (Cons x xs)
  obtain n where n: "map snd (queue (foldl (reach_visit level) (reach_visit level st x) xs))
      = map snd (queue (reach_visit level st x)) @ replicate n (level + 1)"
    using Cons.IH by blast
  show ?case
  proof (cases "x \<in> visited st")
    case True
    then have "map snd (queue (foldl (reach_visit level) st (x # xs)))
       = map snd (queue st) @ replicate n (level + 1)"
      using n by (simp add: queue_reach_visit)
    then show ?thesis by blast
  next
    case False
    then have "map snd (queue (foldl (reach_visit level) st (x # xs)))
       = map snd (queue st) @ replicate (Suc n) (level + 1)"
      using n by (simp add: queue_reach_visit)
    then show ?thesis by blast
  qed
qed

lemma queue_weight_decrease:
  assumes "level < depth"
  shows "(queue_weight depth (rest @ replicate n (level + 1)),
          queue_weight depth (level # rest)) \<in> mult {(a, b). a < b}"
proof -
  let ?K = "mset (replicate n (nat (depth - (level + 1))))"
  let ?J = "{#nat (depth - level)#}"
  let ?I = "queue_weight depth rest"
  have "(?I + ?K, ?I + ?J) \<in> mult {(a, b). a < b}"
  proof (rule one_step_implies_mult)
    show "?J \<noteq> {#}" by simp
    show "\<forall>k\<in>set_mset ?K. \<exists>j\<in>set_mset ?J. (k, j) \<in> {(a, b). a < b}"
      using assms by auto
  qed
  moreover have "queue_weight depth (rest @ replicate n (level + 1)) = ?I + ?K"
    by (simp add: queue_weight_def)
  moreover have "queue_weight depth (level # rest) = ?I + ?J"
    by (simp add: queue_weight_def)
  ultimately show ?thesis by simp
qed

lemma queue_weight_drop:
  "(queue_weight depth rest, queue_weight depth (level # rest)) \<in> mult {(a, b). a < b}"
proof -
  have "(queue_weight depth rest + {#}, queue_weight depth rest + {#nat (depth - level)#})
          \<in> mult {(a, b). a < b}"
    by (rule one_step_implies_mult) simp_all
  then show ?thesis by (simp add: queue_weight_def)
qed

lemma wf_queue_weight: "wf (inv_image (mult {(a::nat, b). a < b}) f)"
  using wf_mult [OF wf_less] by (simp add: less_than_def [symmetric])

text \<open>
  \<open>while queue: current, level = queue.popleft(); if level >= depth: continue; ...\<close>
\<close>

function bounded_reach_loop :: "Rule list \<Rightarrow> int \<Rightarrow> int option \<Rightarrow> reach_state \<Rightarrow> reach_state" where
  "bounded_reach_loop rules depth width st =
     (case queue st of
        [] \<Rightarrow> st
      | (current, level) # rest \<Rightarrow>
          if level \<ge> depth then bounded_reach_loop rules depth width (st\<lparr>queue := rest\<rparr>)
          else bounded_reach_loop rules depth width
                 (foldl (reach_visit level) (st\<lparr>queue := rest\<rparr>)
                    (map fst (limit_width width (all_applications rules current)))))"
  by pat_completeness auto
termination
proof (relation "inv_image (mult {(a, b). a < b})
                   (\<lambda>(rules, depth, width, st). queue_weight depth (map snd (queue st)))")
  show "wf (inv_image (mult {(a::nat, b). a < b})
                   (\<lambda>(rules, depth, width, st). queue_weight depth (map snd (queue st))))"
    by (rule wf_queue_weight)
next
  fix rules :: "Rule list" and depth :: int and width :: "int option" and st :: reach_state
    and x21 x22 x y
  assume "queue st = x21 # x22" "(x, y) = x21" "depth \<le> y"
  then show "((rules, depth, width, st\<lparr>queue := x22\<rparr>), rules, depth, width, st)
       \<in> inv_image (mult {(a, b). a < b})
            (\<lambda>(rules, depth, width, st). queue_weight depth (map snd (queue st)))"
    using queue_weight_drop [of depth "map snd x22" y] by auto
next
  fix rules :: "Rule list" and depth :: int and width :: "int option" and st :: reach_state
    and x21 x22 x y
  assume a: "queue st = x21 # x22" "(x, y) = x21" "\<not> depth \<le> y"
  obtain n where "map snd (queue (foldl (reach_visit y) (st\<lparr>queue := x22\<rparr>)
                    (map fst (limit_width width (all_applications rules x)))))
          = map snd x22 @ replicate n (y + 1)"
    using queue_foldl_reach_visit [of y "st\<lparr>queue := x22\<rparr>"] by auto
  then show "((rules, depth, width,
         foldl (reach_visit y) (st\<lparr>queue := x22\<rparr>)
          (map fst (limit_width width (all_applications rules x)))),
        rules, depth, width, st)
       \<in> inv_image (mult {(a, b). a < b})
            (\<lambda>(rules, depth, width, st). queue_weight depth (map snd (queue st)))"
    using a queue_weight_decrease [of y depth "map snd x22" n] by auto
qed

definition bounded_reach :: "Rule list \<Rightarrow> String \<Rightarrow> int \<Rightarrow> int option \<Rightarrow> (int \<rightharpoonup> String set)" where
  "bounded_reach rules start depth width =
     levels (bounded_reach_loop rules depth width
        \<lparr>levels = [0 \<mapsto> {start}], visited = {start}, queue = [(start, 0)]\<rparr>)"

subsection \<open>\<open>reachable\<close>\<close>

text \<open>
  The loop state is the set \<open>visited\<close> and the queue of (string, path, level) triples.
  \<open>reachable_scan\<close> is the inner \<open>for\<close> loop; \<open>Inl\<close> is its early \<open>return path + [new_string]\<close>.
\<close>

type_synonym search_state = "String set \<times> (String \<times> String list \<times> int) list"

fun reachable_scan ::
  "String \<Rightarrow> String list \<Rightarrow> int \<Rightarrow> String list \<Rightarrow> search_state \<Rightarrow> String list + search_state"
where
  "reachable_scan target path level [] st = Inr st"
| "reachable_scan target path level (new_string # apps) (vis, q) =
     (if new_string = target then Inl (path @ [new_string])
      else if new_string \<notin> vis then
        reachable_scan target path level apps
          (insert new_string vis, q @ [(new_string, path @ [new_string], level + 1)])
      else reachable_scan target path level apps (vis, q))"

lemma queue_reachable_scan:
  "reachable_scan target path level apps (vis, q) = Inr (vis', q') \<Longrightarrow>
   \<exists>n. map (snd \<circ> snd) q' = map (snd \<circ> snd) q @ replicate n (level + 1)"
proof (induction apps arbitrary: vis q)
  case Nil
  then have "map (snd \<circ> snd) q' = map (snd \<circ> snd) q @ replicate 0 (level + 1)" by simp
  then show ?case by blast
next
  case (Cons a apps)
  show ?case
  proof (cases "a \<notin> vis")
    case True
    with Cons.prems have "reachable_scan target path level apps
          (insert a vis, q @ [(a, path @ [a], level + 1)]) = Inr (vis', q')"
      by (simp split: if_splits)
    from Cons.IH [OF this] obtain n where
      "map (snd \<circ> snd) q'
         = map (snd \<circ> snd) (q @ [(a, path @ [a], level + 1)]) @ replicate n (level + 1)"
      by blast
    then have "map (snd \<circ> snd) q' = map (snd \<circ> snd) q @ replicate (Suc n) (level + 1)"
      by simp
    then show ?thesis by blast
  next
    case False
    with Cons.prems have "reachable_scan target path level apps (vis, q) = Inr (vis', q')"
      by (simp split: if_splits)
    from Cons.IH [OF this] show ?thesis .
  qed
qed

function reachable_loop ::
  "Rule list \<Rightarrow> String \<Rightarrow> int \<Rightarrow> int option \<Rightarrow> search_state \<Rightarrow> String list option" where
  "reachable_loop rules target depth width (vis, q) =
     (case q of
        [] \<Rightarrow> None
      | (current, path, level) # rest \<Rightarrow>
          if level \<ge> depth then reachable_loop rules target depth width (vis, rest)
          else (case reachable_scan target path level
                       (map fst (limit_width width (all_applications rules current))) (vis, rest) of
                  Inl found \<Rightarrow> Some found
                | Inr st' \<Rightarrow> reachable_loop rules target depth width st'))"
  by pat_completeness auto
termination
proof (relation "inv_image (mult {(a, b). a < b})
         (\<lambda>(rules, target, depth, width, vis, q). queue_weight depth (map (snd \<circ> snd) q))")
  show "wf (inv_image (mult {(a::nat, b). a < b})
         (\<lambda>(rules, target, depth, width, vis, q). queue_weight depth (map (snd \<circ> snd) q)))"
    by (rule wf_queue_weight)
next
  fix rules :: "Rule list" and target :: String and depth :: int and width :: "int option"
    and vis :: "String set" and q :: "(String \<times> String list \<times> int) list"
    and x21 x22 x y xa ya
  assume "q = x21 # x22" "(x, y) = x21" "(xa, ya) = y" "depth \<le> ya"
  then show "((rules, target, depth, width, vis, x22), rules, target, depth, width, vis, q)
       \<in> inv_image (mult {(a, b). a < b})
           (\<lambda>(rules, target, depth, width, vis, q). queue_weight depth (map (snd \<circ> snd) q))"
    using queue_weight_drop [of depth "map (snd \<circ> snd) x22" ya] by auto
next
  fix rules :: "Rule list" and target :: String and depth :: int and width :: "int option"
    and vis :: "String set" and q :: "(String \<times> String list \<times> int) list"
    and x21 x22 x y xa ya x2
  assume a: "q = x21 # x22" "(x, y) = x21" "(xa, ya) = y" "\<not> depth \<le> ya"
    "reachable_scan target xa ya (map fst (limit_width width (all_applications rules x))) (vis, x22)
       = Inr x2"
  obtain vis' q' where x2: "x2 = (vis', q')" by (cases x2)
  obtain n where "map (snd \<circ> snd) q' = map (snd \<circ> snd) x22 @ replicate n (ya + 1)"
    using queue_reachable_scan a(5) x2 by blast
  then show "((rules, target, depth, width, x2), rules, target, depth, width, vis, q)
       \<in> inv_image (mult {(a, b). a < b})
           (\<lambda>(rules, target, depth, width, vis, q). queue_weight depth (map (snd \<circ> snd) q))"
    using a x2 queue_weight_decrease [of ya depth "map (snd \<circ> snd) x22" n] by auto
qed

definition reachable ::
  "Rule list \<Rightarrow> String \<Rightarrow> String \<Rightarrow> int \<Rightarrow> int option \<Rightarrow> String list option" where
  "reachable rules start target depth width =
     (if start = target then Some [start]
      else reachable_loop rules target depth width ({start}, [(start, [start], 0)]))"

text \<open>The two-rule system \<open>00 \<rightarrow> 0|\<close>, \<open>0| \<rightarrow> 00\<close> of the end-to-end scenario.\<close>

definition rules_cycle :: "Rule list" where
  "rules_cycle = [\<lparr>left = from_str ''00'', right = from_str ''0|''\<rparr>,
                  \<lparr>left = from_str ''0|'', right = from_str ''00''\<rparr>]"

section \<open>Blocks of a string\<close>

text \<open>
  \<open>String.get_blocks\<close> of src/rewriting/engine.py: \<open>blocks\<close> and \<open>count\<close> (here \<open>cnt\<close>) are the loop
  variables; a separator closes a block only when \<open>count > 0\<close>; any symbol other than
  \<open>0\<close> and \<open>|\<close> raises \<open>ValueError\<close>.
\<close>

fun get_blocks_loop :: "String \<Rightarrow> int list \<Rightarrow> int \<Rightarrow> error + (int list \<times> int)" where
  "get_blocks_loop [] blocks cnt = Inr (blocks, cnt)"
| "get_blocks_loop (symb # rest) blocks cnt =
     (if symb = ''0'' then get_blocks_loop rest blocks (cnt + 1)
      else if symb = ''|'' then
        (if cnt > 0 then get_blocks_loop rest (blocks @ [cnt]) 0
         else get_blocks_loop rest blocks cnt)
      else Inl ValueError)"

definition get_blocks :: "String \<Rightarrow> error + int list" where
  "get_blocks s =
     (case get_blocks_loop s [] 0 of
        Inl e \<Rightarrow> Inl e
      | Inr (blocks, cnt) \<Rightarrow> Inr (if cnt > 0 then blocks @ [cnt] else blocks))"

text \<open>
  \<open>String.get_blocks\<close> of src/core/types.py, whose \<open>String\<close> wraps a Python \<open>str\<close>
  (\<open>content\<close>): every separator closes a block, empty ones included; other characters
  are skipped. The result is cached on first use; the content never changes, so the
  cache always holds the value computed here.
\<close>

fun core_blocks_loop :: "string \<Rightarrow> int list \<Rightarrow> int \<Rightarrow> int list \<times> int" where
  "core_blocks_loop [] blocks current_block_len = (blocks, current_block_len)"
| "core_blocks_loop (c # rest) blocks current_block_len =
     (if c = CHR ''0'' then core_blocks_loop rest blocks (current_block_len + 1)
      else if c = CHR ''|'' then core_blocks_loop rest (blocks @ [current_block_len]) 0
      else core_blocks_loop rest blocks current_block_len)"

definition core_get_blocks :: "string \<Rightarrow> int list" where
  "core_get_blocks content =
     (case core_blocks_loop content [] 0 of
        (blocks, current_block_len) \<Rightarrow>
          if current_block_len > 0 \<or> (content \<noteq> [] \<and> last content \<noteq> CHR ''|'')
          then blocks @ [current_block_len] else blocks)"

text \<open>The property of the specification, for a string \<open>s\<close> and a block list \<open>bs\<close>.\<close>

definition blocks_spec :: "'a \<Rightarrow> 'a \<Rightarrow> 'a list \<Rightarrow> int list \<Rightarrow> bool" where
  "blocks_spec zero bar s bs \<longleftrightarrow>
     sum_list bs = int (count_list s zero)
     \<and> (s \<noteq> [] \<and> last s \<noteq> bar \<longrightarrow> length bs = count_list s bar + 1)"

text \<open>Two adjacent separators, which enclose an empty block.\<close>

fun has_double_bar :: "String \<Rightarrow> bool" where
  "has_double_bar (a # b # rest) = ((a = ''|'' \<and> b = ''|'') \<or> has_double_bar (b # rest))"
| "has_double_bar _ = False"

section \<open>Overlap detection (src/overlap/ac_automaton.py)\<close>

record Overlap =
  pattern1 :: string
  pattern2 :: string
  overlap_length :: int
  overlap_string :: string

text \<open>The Python slice \<open>s[-length:]\<close> for \<open>length \<ge> 1\<close>: the last \<open>length\<close> characters.\<close>

definition py_suffix :: "nat \<Rightarrow> 'a list \<Rightarrow> 'a list" where
  "py_suffix l s = drop (length s - l) s"

text \<open>
  \<open>find_suffix_prefix_overlap\<close>: \<open>for length in range(max_overlap, 0, -1)\<close>, returning at the
  first \<open>length\<close> with \<open>s1[-length:] == s2[:length]\<close>, and \<open>None\<close> when there is none.
\<close>

definition find_suffix_prefix_overlap :: "string \<Rightarrow> string \<Rightarrow> Overlap option" where
  "find_suffix_prefix_overlap s1 s2 =
     (let max_overlap = min (length s1) (length s2)
      in case find (\<lambda>l. py_suffix l s1 = take l s2) (rev [1 ..< Suc max_overlap]) of
           None \<Rightarrow> None
         | Some l \<Rightarrow> Some \<lparr>pattern1 = s1, pattern2 = s2, overlap_length = int l,
                           overlap_string = py_suffix l s1\<rparr>)"

text \<open>
  \<open>find_all_overlaps\<close>: all ordered pairs of patterns at distinct indices \<open>i \<noteq> j\<close>, keeping
  the overlaps of length at least \<open>min_length\<close>.
\<close>

definition find_all_overlaps :: "string list \<Rightarrow> int \<Rightarrow> Overlap list" where
  "find_all_overlaps patterns min_length =
     concat (map (\<lambda>(i, p1).
       concat (map (\<lambda>(j, p2).
         if i \<noteq> j then
           (case find_suffix_prefix_overlap p1 p2 of
              None \<Rightarrow> []
            | Some overlap \<Rightarrow> if overlap_length overlap \<ge> min_length then [overlap] else [])
         else []) (enumerate 0 patterns))) (enumerate 0 patterns))"

text \<open>The loop \<open>for overlap in overlaps: if overlap.overlap_length > m: return False\<close>.\<close>

fun overlaps_within :: "int \<Rightarrow> Overlap list \<Rightarrow> bool" where
  "overlaps_within m [] = True"
| "overlaps_within m (overlap # overlaps) =
     (if overlap_length overlap > m then False else overlaps_within m overlaps)"

definition check_m_locality :: "Rule list \<Rightarrow> int \<Rightarrow> bool" where
  "check_m_locality rules m =
     (let left_parts = map (\<lambda>rule. str_of (left rule)) rules;
          overlaps = find_all_overlaps left_parts 1
      in overlaps_within m overlaps)"

section \<open>Macros (src/semantic_lift/macro_system.py)\<close>

text \<open>
  A \<open>Macro\<close>: its field \<open>definition\<close> is named \<open>macro_definition\<close> here; its
  \<open>metadata\<close> dictionary is read by none of the functions below and is left out. A
  history entry is the dictionary with the keys \<open>version\<close>, \<open>action\<close>, \<open>macro\<close> and
  \<open>symbol\<close> that \<open>add_macro\<close> appends.
\<close>

record Macro =
  symbol :: Symbol
  macro_definition :: String
  rules_add :: "Rule list"
  verified :: bool

record history_entry =
  entry_version :: int
  entry_action :: string
  entry_macro :: string
  entry_symbol :: string

record MacroDictionary =
  macros :: "Macro list"
  version :: int
  history :: "history_entry list"

text \<open>\<open>MacroDictionary()\<close>: the dataclass defaults.\<close>

definition empty_dictionary :: MacroDictionary where
  "empty_dictionary = \<lparr>macros = [], version = 1, history = []\<rparr>"

text \<open>
  \<open>Macro.__str__\<close>: \<open>f"{symbol} := {definition} {mark}"\<close>, the mark being U+2713 (three
  bytes in UTF-8) for a verified macro and \<open>?\<close> otherwise.
\<close>

definition macro_str :: "Macro \<Rightarrow> string" where
  "macro_str macro =
     symbol macro @ '' := '' @ str_of (macro_definition macro) @ '' '' @
     (if verified macro then [char_of (226::nat), char_of (156::nat), char_of (147::nat)]
      else ''?'')"

definition add_macro :: "MacroDictionary \<Rightarrow> Macro \<Rightarrow> MacroDictionary" where
  "add_macro d macro =
     (let v = version d + 1
      in \<lparr>macros = macros d @ [macro],
          version = v,
          history = history d @
            [\<lparr>entry_version = v, entry_action = ''add'', entry_macro = macro_str macro,
              entry_symbol = symbol macro\<rparr>]\<rparr>)"

text \<open>
  \<open>expand\<close>. \<open>subst_symbols\<close> is the loop over \<open>current.symbols\<close> for one macro,
  \<open>expand_pass\<close> the loop over the macros, \<open>expand_loop\<close> the \<open>while\<close> loop with its cap
  of 100 iterations.
\<close>

fun subst_symbols :: "Macro \<Rightarrow> Symbol list \<Rightarrow> Symbol list \<times> bool \<Rightarrow> Symbol list \<times> bool" where
  "subst_symbols macro [] acc = acc"
| "subst_symbols macro (symb # rest) (new_symbols, changed) =
     (if symb = symbol macro
      then subst_symbols macro rest (new_symbols @ macro_definition macro, True)
      else subst_symbols macro rest (new_symbols @ [symb], changed))"

fun expand_pass :: "Macro list \<Rightarrow> String \<times> bool \<Rightarrow> String \<times> bool" where
  "expand_pass [] st = st"
| "expand_pass (macro # rest) (current, changed) =
     expand_pass rest (subst_symbols macro current ([], changed))"

function expand_loop :: "Macro list \<Rightarrow> String \<Rightarrow> bool \<Rightarrow> nat \<Rightarrow> String" where
  "expand_loop ms current changed iteration =
     (if changed \<and> iteration < 100 then
        (case expand_pass ms (current, False) of
           (current', changed') \<Rightarrow> expand_loop ms current' changed' (iteration + 1))
      else current)"
  by pat_completeness auto
termination
  by (relation "measure (\<lambda>(ms, current, changed, iteration). 100 - iteration)") auto

definition expand :: "MacroDictionary \<Rightarrow> String \<Rightarrow> String" where
  "expand d string = expand_loop (macros d) string True 0"

subsection \<open>Local confluence check\<close>

text \<open>\<open>_generate_critical_pairs\<close>: all concatenations of two left-hand sides, then the
  left-hand sides themselves.\<close>

definition generate_critical_pairs :: "Rule list \<Rightarrow> String list" where
  "generate_critical_pairs rules =
     concat (map (\<lambda>rule1. map (\<lambda>rule2. left rule1 @ left rule2) rules) rules)
     @ map left rules"

text \<open>The union of all levels of \<open>bounded_reach(result, depth=search_depth, width=50)\<close>.\<close>

definition reach_closure :: "Rule list \<Rightarrow> String \<Rightarrow> int \<Rightarrow> String set" where
  "reach_closure rules s search_depth = \<Union> (ran (bounded_reach rules s search_depth (Some 50)))"

text \<open>The loop \<open>for test_string in test_strings[:20]\<close> with its early \<open>return False\<close>.\<close>

fun confluence_loop :: "Rule list \<Rightarrow> int \<Rightarrow> String list \<Rightarrow> bool" where
  "confluence_loop all_rules search_depth [] = True"
| "confluence_loop all_rules search_depth (test_string # rest) =
     (let applications = all_applications all_rules test_string
      in if length applications < 2 then confluence_loop all_rules search_depth rest
         else
           let result1 = fst (applications ! 0);
               result2 = fst (applications ! 1)
           in if result1 = result2 then confluence_loop all_rules search_depth rest
              else
                let all_reach1 = reach_closure all_rules result1 search_depth;
                    all_reach2 = reach_closure all_rules result2 search_depth;
                    common = all_reach1 \<inter> all_reach2
                in if common = {} then False
                   else confluence_loop all_rules search_depth rest)"

definition LocalConfluenceChecker_check :: "Rule list \<Rightarrow> Macro \<Rightarrow> int \<Rightarrow> bool" where
  "LocalConfluenceChecker_check original_rules new_macro search_depth =
     (let all_rules = original_rules @ rules_add new_macro;
          test_strings = generate_critical_pairs all_rules
      in confluence_loop all_rules search_depth (take 20 test_strings))"

text \<open>
  The condition of the specification on one critical string: there are at least two
  one-step applications, the first two give distinct successors, and the bounded-reach
  closures of these two successors are disjoint.
\<close>

definition diverges :: "Rule list \<Rightarrow> int \<Rightarrow> String \<Rightarrow> bool" where
  "diverges all_rules search_depth t =
     (case map fst (all_applications all_rules t) of
        result1 # result2 # _ \<Rightarrow>
          result1 \<noteq> result2
          \<and> reach_closure all_rules result1 search_depth
              \<inter> reach_closure all_rules result2 search_depth = {}
      | _ \<Rightarrow> False)"

subsection \<open>Bounded bisimulation check\<close>

text \<open>
  \<open>_generate_test_strings\<close>: for each length in \<open>range(1, min(max_length + 1, 6))\<close> the run
  of zeros and, from length 2 on, \<open>("0|" * (length // 2))[:length]\<close>.
\<close>

definition generate_test_strings :: "int \<Rightarrow> String list" where
  "generate_test_strings max_length =
     concat (map (\<lambda>n. from_str (replicate n CHR ''0'')
                       # (if n \<ge> 2 then [from_str (take n (concat (replicate (n div 2) ''0|'')))]
                          else []))
                 [1 ..< nat (min (max_length + 1) 6)])"

text \<open>\<open>reach.get(max_depth, set())\<close> of a bounded reach of width 30.\<close>

definition final_level :: "Rule list \<Rightarrow> String \<Rightarrow> int \<Rightarrow> String set" where
  "final_level rules t max_depth =
     (case bounded_reach rules t max_depth (Some 30) max_depth of None \<Rightarrow> {} | Some S \<Rightarrow> S)"

definition symmetric_difference :: "'a set \<Rightarrow> 'a set \<Rightarrow> 'a set" where
  "symmetric_difference A B = (A - B) \<union> (B - A)"

text \<open>
  The test \<open>len(sym_diff) > len(final_old) * 0.5\<close> compares an integer with half an
  integer; the product is exact in floating point, and the test is written here on
  integers as \<open>2 * len(sym_diff) > len(final_old)\<close>.
\<close>

fun bisimulation_loop :: "Rule list \<Rightarrow> Rule list \<Rightarrow> int \<Rightarrow> String list \<Rightarrow> bool" where
  "bisimulation_loop old_rules new_rules max_depth [] = True"
| "bisimulation_loop old_rules new_rules max_depth (test_string # rest) =
     (let final_old = final_level old_rules test_string max_depth;
          final_new = final_level new_rules test_string max_depth
      in if 2 * card (symmetric_difference final_old final_new) > card final_old then False
         else bisimulation_loop old_rules new_rules max_depth rest)"

definition BoundedBisimulation_check :: "Rule list \<Rightarrow> Macro \<Rightarrow> int \<Rightarrow> int \<Rightarrow> bool" where
  "BoundedBisimulation_check original_rules new_macro max_length max_depth =
     bisimulation_loop original_rules (original_rules @ rules_add new_macro) max_depth
       (take 10 (generate_test_strings max_length))"

subsection \<open>Admission\<close>

text \<open>
  The admission step of the pipeline (\<open>demo\<close> in macro_system.py, and
  examples/full_pipeline_demo.py): both checks are run, and only when both hold is the
  macro marked verified and added.
\<close>

definition admit ::
  "Rule list \<Rightarrow> int \<Rightarrow> int \<Rightarrow> int \<Rightarrow> MacroDictionary \<Rightarrow> Macro \<Rightarrow> MacroDictionary" where
  "admit original_rules search_depth max_length max_depth dictionary macro =
     (let is_confluent = LocalConfluenceChecker_check original_rules macro search_depth;
          is_bisimilar = BoundedBisimulation_check original_rules macro max_length max_depth
      in if is_confluent \<and> is_bisimilar
         then add_macro dictionary (macro\<lparr>verified := True\<rparr>)
         else dictionary)"

text \<open>
  One iteration of the pipeline's loop over the candidates: the rule set and the bounds
  the two checks are called with, and the candidate macro.
\<close>

record admission_step =
  step_rules :: "Rule list"
  step_search_depth :: int
  step_max_length :: int
  step_max_depth :: int
  step_macro :: Macro

text \<open>Both checks, called as the admission step calls them, return true.\<close>

definition passes_checks :: "admission_step \<Rightarrow> bool" where
  "passes_checks c \<longleftrightarrow>
     LocalConfluenceChecker_check (step_rules c) (step_macro c) (step_search_depth c)
     \<and> BoundedBisimulation_check (step_rules c) (step_macro c)
           (step_max_length c) (step_max_depth c)"

text \<open>
  The loop \<open>for i, candidate in enumerate(all_candidates[:5])\<close> of
  examples/full_pipeline_demo.py: one admission step per candidate, on the same
  dictionary.
\<close>

fun admit_all :: "MacroDictionary \<Rightarrow> admission_step list \<Rightarrow> MacroDictionary" where
  "admit_all dictionary [] = dictionary"
| "admit_all dictionary (c # rest) =
     admit_all (admit (step_rules c) (step_search_depth c) (step_max_length c)
                  (step_max_depth c) dictionary (step_macro c)) rest"

subsection \<open>Example macros and rule sets\<close>

definition macro_A :: Macro where
  "macro_A = \<lparr>symbol = ''A'', macro_definition = from_str ''00'',
              rules_add = [\<lparr>left = [''A''], right = from_str ''00''\<rparr>,
                           \<lparr>left = from_str ''00'', right = [''A'']\<rparr>],
              verified = True\<rparr>"

definition rules_join :: "Rule list" where
  "rules_join = [\<lparr>left = from_str ''0|'', right = from_str ''00''\<rparr>]"

definition macro_plain :: Macro where
  "macro_plain = \<lparr>symbol = ''A'', macro_definition = from_str ''00'', rules_add = [],
                  verified = False\<rparr>"

definition macro_unchecked :: Macro where
  "macro_unchecked = \<lparr>symbol = ''B'', macro_definition = from_str ''0|'',
                      rules_add = [\<lparr>left = [''B''], right = from_str ''0|''\<rparr>,
                                   \<lparr>left = from_str ''0|'', right = [''B'']\<rparr>],
                      verified = False\<rparr>"

text \<open>Two admission steps: \<open>macro_A\<close> against no other rule, and \<open>macro_plain\<close> against
  \<open>rules_join\<close>.\<close>

definition step_A :: admission_step where
  "step_A = \<lparr>step_rules = [], step_search_depth = 0, step_max_length = 2,
              step_max_depth = 1, step_macro = macro_A\<rparr>"

definition step_plain :: admission_step where
  "step_plain = \<lparr>step_rules = rules_join, step_search_depth = 1, step_max_length = 2,
                  step_max_depth = 1, step_macro = macro_plain\<rparr>"

section \<open>Configuration graph and Tarjan's algorithm (src/graph)\<close>

text \<open>
  A \<open>Graph\<close> is a set of vertices and a dictionary from a vertex to the list of its
  successors. \<open>get_neighbors\<close> is \<open>edges.get(v, [])\<close>.
\<close>

record Graph =
  vertices :: "String set"
  edges :: "String \<rightharpoonup> String list"

text \<open>\<open>Graph(vertices=set(), edges={})\<close>, the only way the repository creates a graph; it
  is then filled through \<open>add_vertex\<close> and \<open>add_edge\<close>.\<close>

definition empty_graph :: Graph where
  "empty_graph = \<lparr>vertices = {}, edges = Map.empty\<rparr>"

definition add_vertex :: "Graph \<Rightarrow> String \<Rightarrow> Graph" where
  "add_vertex g v =
     \<lparr>vertices = insert v (vertices g),
      edges = (if v \<notin> dom (edges g) then (edges g)(v \<mapsto> []) else edges g)\<rparr>"

definition get_neighbors :: "Graph \<Rightarrow> String \<Rightarrow> String list" where
  "get_neighbors g v = (case edges g v of None \<Rightarrow> [] | Some ns \<Rightarrow> ns)"

text \<open>\<open>add_edge\<close> reads \<open>self.edges[u]\<close> after \<open>add_vertex(u)\<close>, which has made \<open>u\<close> a key.\<close>

definition add_edge :: "Graph \<Rightarrow> String \<Rightarrow> String \<Rightarrow> Graph" where
  "add_edge g u v =
     (let g' = add_vertex (add_vertex g u) v
      in if v \<notin> set (get_neighbors g' u)
         then g'\<lparr>edges := (edges g')(u \<mapsto> get_neighbors g' u @ [v])\<rparr>
         else g')"

subsection \<open>Tarjan's algorithm (src/graph/scc.py)\<close>

record SCC =
  nodes :: "String set"
  is_attractor :: bool

text \<open>
  The fields of a \<open>TarjanSCC\<close> object. The Python list \<open>stack\<close> grows and shrinks at its
  end; here the top of the stack is the head of the list.
\<close>

record tarjan_state =
  index_counter :: int
  stack :: "String list"
  on_stack :: "String set"
  index :: "String \<rightharpoonup> int"
  lowlink :: "String \<rightharpoonup> int"
  components :: "SCC list"

definition tarjan_init :: tarjan_state where
  "tarjan_init = \<lparr>index_counter = 0, stack = [], on_stack = {}, index = Map.empty,
                   lowlink = Map.empty, components = []\<rparr>"

text \<open>The first five statements of \<open>_strongconnect\<close>: number \<open>v\<close> and push it.\<close>

definition enter :: "String \<Rightarrow> tarjan_state \<Rightarrow> tarjan_state" where
  "enter v st =
     st\<lparr>index := (index st)(v \<mapsto> index_counter st),
        lowlink := (lowlink st)(v \<mapsto> index_counter st),
        index_counter := index_counter st + 1,
        stack := v # stack st,
        on_stack := insert v (on_stack st)\<rparr>"

text \<open>
  The loop \<open>while True: w = self.stack.pop(); self.on_stack.remove(w);
  component_nodes.add(w); if w == v: break\<close>. Popping the empty list raises
  \<open>IndexError\<close>, removing an absent element from a set raises \<open>KeyError\<close>.
\<close>

fun pop_component ::
  "String \<Rightarrow> String list \<Rightarrow> String set \<Rightarrow> String set
     \<Rightarrow> error + (String list \<times> String set \<times> String set)" where
  "pop_component v [] on_stk component_nodes = Inl IndexError"
| "pop_component v (w # rest) on_stk component_nodes =
     (if w \<notin> on_stk then Inl KeyError
      else if w = v then Inr (rest, on_stk - {w}, insert w component_nodes)
      else pop_component v rest (on_stk - {w}) (insert w component_nodes))"

text \<open>The end of \<open>_strongconnect\<close>: \<open>if self.lowlink[v] == self.index[v]\<close>, pop the
  component and append it to \<open>components\<close>.\<close>

definition close_component :: "String \<Rightarrow> tarjan_state \<Rightarrow> error + tarjan_state" where
  "close_component v st =
     (case (lowlink st v, index st v) of
        (Some l, Some i) \<Rightarrow>
          if l = i then
            (case pop_component v (stack st) (on_stack st) {} of
               Inl e \<Rightarrow> Inl e
             | Inr (stk, on_stk, component_nodes) \<Rightarrow>
                 Inr (st\<lparr>stack := stk, on_stack := on_stk,
                         components := components st
                            @ [\<lparr>nodes = component_nodes, is_attractor = False\<rparr>]\<rparr>))
          else Inr st
      | _ \<Rightarrow> Inl KeyError)"

text \<open>\<open>self.lowlink[v] = min(self.lowlink[v], other)\<close>, where \<open>other\<close> is \<open>self.lowlink[w]\<close>
  or \<open>self.index[w]\<close>; a missing key raises \<open>KeyError\<close>.\<close>

definition lower :: "String \<Rightarrow> int option \<Rightarrow> tarjan_state \<Rightarrow> error + tarjan_state" where
  "lower v other st =
     (case (lowlink st v, other) of
        (Some l, Some x) \<Rightarrow> Inr (st\<lparr>lowlink := (lowlink st)(v \<mapsto> min l x)\<rparr>)
      | _ \<Rightarrow> Inl KeyError)"

text \<open>
  \<open>_strongconnect\<close> is recursive through its loop over the neighbours. The recursion is
  written as one function on two kinds of frames: \<open>Visit v\<close> is the call
  \<open>_strongconnect(v)\<close>, and \<open>Neighbors v ws\<close> is the rest \<open>ws\<close> of the loop
  \<open>for w in self.graph.get_neighbors(v)\<close> inside that call. The result is \<open>None\<close> when the
  call does not return, \<open>Some (Inl e)\<close> when it raises \<open>e\<close>, and \<open>Some (Inr st)\<close> when it
  returns with the object in state \<open>st\<close>. The interpreter's bound on the recursion depth
  is not part of the model.
\<close>

datatype frame = Visit String | Neighbors String "String list"

partial_function (option) strongconnect_run ::
  "Graph \<Rightarrow> frame \<Rightarrow> tarjan_state \<Rightarrow> (error + tarjan_state) option" where
  "strongconnect_run g fr st =
     (case fr of
        Visit v \<Rightarrow>
          Option.bind (strongconnect_run g (Neighbors v (get_neighbors g v)) (enter v st))
            (\<lambda>r. case r of Inl e \<Rightarrow> Some (Inl e) | Inr st' \<Rightarrow> Some (close_component v st'))
      | Neighbors v [] \<Rightarrow> Some (Inr st)
      | Neighbors v (w # ws) \<Rightarrow>
          if w \<notin> dom (index st) then
            Option.bind (strongconnect_run g (Visit w) st)
              (\<lambda>r. case r of
                     Inl e \<Rightarrow> Some (Inl e)
                   | Inr st' \<Rightarrow>
                       (case lower v (lowlink st' w) st' of
                          Inl e \<Rightarrow> Some (Inl e)
                        | Inr st'' \<Rightarrow> strongconnect_run g (Neighbors v ws) st''))
          else if w \<in> on_stack st then
            (case lower v (index st w) st of
               Inl e \<Rightarrow> Some (Inl e)
             | Inr st' \<Rightarrow> strongconnect_run g (Neighbors v ws) st')
          else strongconnect_run g (Neighbors v ws) st)"

definition strongconnect :: "Graph \<Rightarrow> String \<Rightarrow> tarjan_state \<Rightarrow> (error + tarjan_state) option" where
  "strongconnect g v st = strongconnect_run g (Visit v) st"

text \<open>
  \<open>find_sccs\<close>: \<open>for vertex in self.graph.vertices: if vertex not in self.index:
  self._strongconnect(vertex)\<close>. Python iterates the vertex set in an order of its own;
  the order is the parameter \<open>order\<close>, a list of the vertices.
\<close>

fun find_sccs_loop :: "Graph \<Rightarrow> String list \<Rightarrow> tarjan_state \<Rightarrow> (error + tarjan_state) option" where
  "find_sccs_loop g [] st = Some (Inr st)"
| "find_sccs_loop g (vertex # rest) st =
     (if vertex \<notin> dom (index st) then
        (case strongconnect g vertex st of
           None \<Rightarrow> None
         | Some (Inl e) \<Rightarrow> Some (Inl e)
         | Some (Inr st') \<Rightarrow> find_sccs_loop g rest st')
      else find_sccs_loop g rest st)"

text \<open>\<open>_identify_attractors\<close>: a component is an attractor when no neighbour of one of its
  nodes lies outside it (the loops with \<open>break\<close> compute this conjunction).\<close>

definition identify_attractors :: "Graph \<Rightarrow> SCC list \<Rightarrow> SCC list" where
  "identify_attractors g comps =
     map (\<lambda>component. component\<lparr>is_attractor :=
            (\<forall>node \<in> nodes component. \<forall>neighbor \<in> set (get_neighbors g node).
               neighbor \<in> nodes component)\<rparr>) comps"

definition find_sccs :: "Graph \<Rightarrow> String list \<Rightarrow> (error + SCC list) option" where
  "find_sccs g order =
     (case find_sccs_loop g order tarjan_init of
        None \<Rightarrow> None
      | Some (Inl e) \<Rightarrow> Some (Inl e)
      | Some (Inr st) \<Rightarrow> Some (Inr (identify_attractors g (components st))))"

text \<open>The two-cycle \<open>00 \<leftrightarrow> 0|\<close> with the transient vertex \<open>000\<close> feeding into it.\<close>

definition graph_cycle :: Graph where
  "graph_cycle = add_edge (add_edge (add_edge empty_graph (from_str ''000'') (from_str ''00''))
                     (from_str ''00'') (from_str ''0|'')) (from_str ''0|'') (from_str ''00'')"

text \<open>The graphs that can be built: from the empty graph by \<open>add_vertex\<close> and \<open>add_edge\<close>.\<close>

inductive built_graph :: "Graph \<Rightarrow> bool" where
  built_empty: "built_graph empty_graph"
| built_vertex: "built_graph g \<Longrightarrow> built_graph (add_vertex g v)"
| built_edge: "built_graph g \<Longrightarrow> built_graph (add_edge g u v)"

text \<open>Every successor of a vertex is a vertex.\<close>

definition graph_closed :: "Graph \<Rightarrow> bool" where
  "graph_closed g \<longleftrightarrow> (\<forall>v \<in> vertices g. set (get_neighbors g v) \<subseteq> vertices g)"

section \<open>Properties of the engine\<close>

lemma find_positions_set:
  "set (find_positions s p) = {i. i + length p \<le> length s \<and> take (length p) (drop i s) = p}"
  by (auto simp: find_positions_def Let_def)

lemma find_positions_sorted: "sorted_wrt (<) (find_positions s p)"
  by (simp add: find_positions_def Let_def sorted_wrt_filter)

text \<open>
  Claim C4. \<open>find_positions(s, p)\<close> lists, in strictly increasing order, exactly the start
  indices \<open>i\<close> with \<open>i + len(p) \<le> len(s)\<close> at which \<open>p\<close> occurs in \<open>s\<close>, overlapping
  occurrences included; on \<open>"00|00"\<close> and \<open>"00"\<close> it returns \<open>[0, 3]\<close>.
\<close>

theorem find_positions_exact:
  "sorted_wrt (<) (find_positions s p)
   \<and> set (find_positions s p)
       = {i. i + length p \<le> length s \<and> take (length p) (drop i s) = p}
   \<and> find_positions (from_str ''00|00'') (from_str ''00'') = [0, 3]
   \<and> find_positions (from_str ''000'') (from_str ''00'') = [0, 1]"
proof -
  have a: "find_positions (from_str ''00|00'') (from_str ''00'') = [0, 3]"
    by (simp add: find_positions_def from_str_def upt_conv_Cons)
  have b: "find_positions (from_str ''000'') (from_str ''00'') = [0, 1]"
    by (simp add: find_positions_def from_str_def upt_conv_Cons)
  show ?thesis
    using find_positions_sorted find_positions_set a b by blast
qed

subsection \<open>The levels of \<open>bounded_reach\<close>\<close>

text \<open>
  The loop invariant: level 0 is the start string alone, queued levels are non-negative,
  every level present is a non-empty set of visited strings, and distinct levels are
  disjoint.
\<close>

definition reach_inv :: "String \<Rightarrow> reach_state \<Rightarrow> bool" where
  "reach_inv start st \<longleftrightarrow>
     levels st 0 = Some {start}
     \<and> (\<forall>e \<in> set (queue st). 0 \<le> snd e)
     \<and> (\<forall>k S. levels st k = Some S \<longrightarrow> S \<noteq> {} \<and> S \<subseteq> visited st)
     \<and> (\<forall>k k' S S'. levels st k = Some S \<and> levels st k' = Some S' \<and> k \<noteq> k' \<longrightarrow> S \<inter> S' = {})"

lemma reach_inv_init:
  "reach_inv start \<lparr>levels = [0 \<mapsto> {start}], visited = {start}, queue = [(start, 0)]\<rparr>"
  by (simp add: reach_inv_def)

lemma reach_inv_visit:
  assumes "reach_inv start st" and "0 \<le> level"
  shows "reach_inv start (reach_visit level st x)"
proof (cases "x \<in> visited st")
  case True
  then show ?thesis using assms by (simp add: reach_visit_def)
next
  case False
  let ?st = "reach_visit level st x"
  have lv: "levels ?st = (levels st)(level + 1 \<mapsto>
                 insert x (case levels st (level + 1) of None \<Rightarrow> {} | Some S \<Rightarrow> S))"
    and vis: "visited ?st = insert x (visited st)"
    and qu: "queue ?st = queue st @ [(x, level + 1)]"
    using False by (simp_all add: reach_visit_def Let_def)
  have fresh: "\<And>k S. levels st k = Some S \<Longrightarrow> x \<notin> S"
    using assms(1) False unfolding reach_inv_def by blast
  have disj: "\<And>k k' S S'. levels st k = Some S \<Longrightarrow> levels st k' = Some S' \<Longrightarrow> k \<noteq> k'
                \<Longrightarrow> S \<inter> S' = {}"
    using assms(1) unfolding reach_inv_def by blast
  have old: "\<And>k' S'. levels st k' = Some S' \<Longrightarrow> k' \<noteq> level + 1 \<Longrightarrow>
               (case levels st (level + 1) of None \<Rightarrow> {} | Some S \<Rightarrow> S) \<inter> S' = {}"
  proof -
    fix k' S' assume "levels st k' = Some S'" "k' \<noteq> level + 1"
    then show "(case levels st (level + 1) of None \<Rightarrow> {} | Some S \<Rightarrow> S) \<inter> S' = {}"
      using disj [of "level + 1" _ k' S'] by (cases "levels st (level + 1)") simp_all
  qed
  have "levels ?st 0 = Some {start}"
    using assms unfolding reach_inv_def lv by simp
  moreover have "\<forall>e \<in> set (queue ?st). 0 \<le> snd e"
    using assms unfolding reach_inv_def qu by auto
  moreover have "\<forall>k S. levels ?st k = Some S \<longrightarrow> S \<noteq> {} \<and> S \<subseteq> visited ?st"
    using assms(1) unfolding reach_inv_def lv vis
    by (auto split: option.splits if_splits)
  moreover have "\<forall>k k' S S'. levels ?st k = Some S \<and> levels ?st k' = Some S' \<and> k \<noteq> k'
                   \<longrightarrow> S \<inter> S' = {}"
  proof (intro allI impI)
    fix k k' S S'
    assume a: "levels ?st k = Some S \<and> levels ?st k' = Some S' \<and> k \<noteq> k'"
    show "S \<inter> S' = {}"
    proof (cases "k = level + 1")
      case True
      then have S: "S = insert x (case levels st (level + 1) of None \<Rightarrow> {} | Some S \<Rightarrow> S)"
        and S': "levels st k' = Some S'"
        using a unfolding lv by auto
      have "x \<notin> S'" using fresh S' by blast
      moreover have "(case levels st (level + 1) of None \<Rightarrow> {} | Some S \<Rightarrow> S) \<inter> S' = {}"
        using old [OF S'] a True by blast
      ultimately show ?thesis using S by auto
    next
      case False
      note kf = this
      then have S: "levels st k = Some S" using a unfolding lv by auto
      show ?thesis
      proof (cases "k' = level + 1")
        case True
        then have S': "S' = insert x (case levels st (level + 1) of None \<Rightarrow> {} | Some S \<Rightarrow> S)"
          using a unfolding lv by auto
        have "x \<notin> S" using fresh S by blast
        moreover have "S \<inter> (case levels st (level + 1) of None \<Rightarrow> {} | Some S \<Rightarrow> S) = {}"
          using old [OF S kf] by blast
        ultimately show ?thesis using S' by auto
      next
        case False
        then have "levels st k' = Some S'" using a unfolding lv by auto
        then show ?thesis using disj [OF S] a by blast
      qed
    qed
  qed
  ultimately show ?thesis unfolding reach_inv_def by blast
qed

lemma reach_inv_foldl:
  "reach_inv start st \<Longrightarrow> 0 \<le> level \<Longrightarrow> reach_inv start (foldl (reach_visit level) st xs)"
  by (induction xs arbitrary: st) (simp_all add: reach_inv_visit)

lemma reach_inv_dequeue:
  "reach_inv start st \<Longrightarrow> queue st = e # rest \<Longrightarrow> reach_inv start (st\<lparr>queue := rest\<rparr>)"
  by (simp add: reach_inv_def)

lemma reach_inv_loop:
  "reach_inv start st \<Longrightarrow> reach_inv start (bounded_reach_loop rules depth width st)"
proof (induction rules depth width st rule: bounded_reach_loop.induct)
  case (1 rules depth width st)
  show ?case
  proof (cases "queue st")
    case Nil
    then show ?thesis using "1.prems" by (subst bounded_reach_loop.simps) simp
  next
    case (Cons e rest)
    obtain current level where e: "e = (current, level)" by (cases e)
    have deq: "reach_inv start (st\<lparr>queue := rest\<rparr>)"
      using reach_inv_dequeue "1.prems" Cons by blast
    have lv: "0 \<le> level" using "1.prems" Cons e by (auto simp: reach_inv_def)
    show ?thesis
    proof (cases "depth \<le> level")
      case True
      then show ?thesis
        using "1.IH"(1) [OF Cons e [symmetric] True deq] Cons e
        by (subst bounded_reach_loop.simps) simp
    next
      case False
      then show ?thesis
        using "1.IH"(2) [OF Cons e [symmetric] False reach_inv_foldl [OF deq lv]] Cons e
        by (subst bounded_reach_loop.simps) simp
    qed
  qed
qed

lemma reach_inv_bounded_reach:
  "\<exists>st. bounded_reach rules start depth width = levels st \<and> reach_inv start st"
  unfolding bounded_reach_def using reach_inv_loop [OF reach_inv_init] by blast

lemmas engine_eval = rules_cycle_def from_str_def all_applications_def
      find_positions_def apply_rule_def limit_width_def reach_visit_def upt_conv_Cons Let_def

lemma bounded_reach_cycle:
  "bounded_reach rules_cycle (from_str ''00'') 2 (Some 10)
     = [0 \<mapsto> {from_str ''00''}, 1 \<mapsto> {from_str ''0|''}]"
  by (simp add: bounded_reach_def engine_eval)

text \<open>
  Claim C3. With the rules \<open>00 \<rightarrow> 0|\<close> and \<open>0| \<rightarrow> 00\<close>, \<open>bounded_reach\<close> from \<open>"00"\<close> with
  depth 2 and width 10 returns exactly \<open>{0: {"00"}, 1: {"0|"}}\<close>. In general level 0 is the
  singleton start, every level present in the result is non-empty (a depth with no new
  string has no entry) and shares no string with an earlier level.
\<close>

theorem bounded_reach_levels:
  "bounded_reach rules_cycle (from_str ''00'') 2 (Some 10)
     = [0 \<mapsto> {from_str ''00''}, 1 \<mapsto> {from_str ''0|''}]
   \<and> bounded_reach rules start depth width 0 = Some {start}
   \<and> (\<forall>k S. bounded_reach rules start depth width k = Some S \<longrightarrow>
         S \<noteq> {} \<and>
         (\<forall>k' S'. k' < k \<and> bounded_reach rules start depth width k' = Some S' \<longrightarrow> S \<inter> S' = {}))"
proof -
  obtain st where st: "bounded_reach rules start depth width = levels st" "reach_inv start st"
    using reach_inv_bounded_reach by blast
  have "levels st 0 = Some {start}" using st(2) by (simp add: reach_inv_def)
  moreover have "\<forall>k S. levels st k = Some S \<longrightarrow>
         S \<noteq> {} \<and> (\<forall>k' S'. k' < k \<and> levels st k' = Some S' \<longrightarrow> S \<inter> S' = {})"
    using st(2) unfolding reach_inv_def by (metis less_irrefl)
  ultimately show ?thesis using bounded_reach_cycle st(1) by simp
qed

theorem bounded_reach_levels_witness:
  "bounded_reach rules_cycle (from_str ''00'') 2 (Some 10) 1 = Some {from_str ''0|''}
   \<and> bounded_reach rules_cycle (from_str ''00'') 2 (Some 10) 0 = Some {from_str ''00''}
   \<and> bounded_reach rules_cycle (from_str ''00'') 2 (Some 10) 2 = None
   \<and> {from_str ''0|''} \<noteq> ({} :: String set)
   \<and> {from_str ''0|''} \<inter> {from_str ''00''} = ({} :: String set)"
  using bounded_reach_levels [of "rules_cycle" "from_str ''00''" 2 "Some 10"]
  by (simp add: from_str_def)

text \<open>
  Claim C10. When \<open>start\<close> equals \<open>target\<close>, \<open>reachable\<close> returns the one-element path
  \<open>[start]\<close> for every rule set, depth (zero and negative included) and width: the test
  precedes the search loop.
\<close>

theorem reachable_same:
  "reachable rules start start depth width = Some [start]"
  by (simp add: reachable_def)


subsection \<open>Blocks\<close>

lemma get_blocks_loop_exact:
  assumes "set s \<subseteq> {''0'', ''|''}" and "\<not> has_double_bar s"
    and "s \<noteq> [] \<and> hd s = ''|'' \<longrightarrow> 0 < cnt" and "0 \<le> cnt"
  shows "\<exists>bs c. get_blocks_loop s blocks cnt = Inr (bs, c)
           \<and> length bs = length blocks + count_list s ''|''
           \<and> (0 < c \<longleftrightarrow> (if s = [] then 0 < cnt else last s = ''0''))"
  using assms
proof (induction s arbitrary: blocks cnt)
  case Nil
  then show ?case by simp
next
  case (Cons symb rest)
  have rest: "set rest \<subseteq> {''0'', ''|''}" using Cons.prems(1) by simp
  have nd: "\<not> has_double_bar rest" using Cons.prems(2) by (cases rest) auto
  consider (zero) "symb = ''0''" | (bar) "symb = ''|''" using Cons.prems(1) by auto
  then show ?case
  proof cases
    case zero
    have "rest \<noteq> [] \<and> hd rest = ''|'' \<longrightarrow> 0 < cnt + 1"
      using Cons.prems(4) by simp
    from Cons.IH [OF rest nd this, of blocks] Cons.prems(4) show ?thesis
      using zero by (auto split: if_splits)
  next
    case bar
    then have pos: "0 < cnt" using Cons.prems(3) by simp
    have "rest \<noteq> [] \<and> hd rest = ''|'' \<longrightarrow> 0 < (0::int)"
      using Cons.prems(2) bar by (cases rest) auto
    from Cons.IH [OF rest nd this, of "blocks @ [cnt]"] show ?thesis
      using bar pos by (cases "rest = []") (auto split: if_splits)
  qed
qed

lemma get_blocks_loop_ok:
  assumes "set s \<subseteq> {''0'', ''|''}" and "0 \<le> cnt" and "\<forall>b \<in> set blocks. 0 < b"
  shows "\<exists>bs c. get_blocks_loop s blocks cnt = Inr (bs, c) \<and> 0 \<le> c
           \<and> (\<forall>b \<in> set bs. 0 < b)
           \<and> sum_list bs + c = sum_list blocks + cnt + int (count_list s ''0'')
           \<and> length bs \<le> length blocks + count_list s ''|''"
  using assms
proof (induction s arbitrary: blocks cnt)
  case Nil
  then show ?case by simp
next
  case (Cons symb rest)
  have rest: "set rest \<subseteq> {''0'', ''|''}" using Cons.prems(1) by simp
  consider (zero) "symb = ''0''" | (bar) "symb = ''|''" using Cons.prems(1) by auto
  then show ?case
  proof cases
    case zero
    have "0 \<le> cnt + 1" using Cons.prems(2) by simp
    from Cons.IH [OF rest this Cons.prems(3)] show ?thesis using zero by auto
  next
    case bar
    show ?thesis
    proof (cases "cnt > 0")
      case True
      then have "\<forall>b \<in> set (blocks @ [cnt]). 0 < b" using Cons.prems(3) by simp
      from Cons.IH [OF rest _ this, of 0] show ?thesis using bar True by auto
    next
      case False
      from Cons.IH [OF rest Cons.prems(2) Cons.prems(3)] show ?thesis using bar False by auto
    qed
  qed
qed

lemma core_blocks_loop_sum:
  "core_blocks_loop s blocks n = (bs, c) \<Longrightarrow>
     sum_list bs + c = sum_list blocks + n + int (count_list s CHR ''0'')
     \<and> length bs = length blocks + count_list s CHR ''|''"
  by (induction s arbitrary: blocks n) (auto split: if_splits)

lemma core_blocks_loop_last:
  "core_blocks_loop s blocks n = (bs, c) \<Longrightarrow> s \<noteq> [] \<Longrightarrow> last s = CHR ''|'' \<Longrightarrow> c = 0"
  by (induction s arbitrary: blocks n) (auto split: if_splits)

lemma core_blocks_loop_nonneg:
  "core_blocks_loop s blocks n = (bs, c) \<Longrightarrow> 0 \<le> n \<Longrightarrow> 0 \<le> c"
  by (induction s arbitrary: blocks n) (auto split: if_splits)

text \<open>
  Claim C2 (amended). For every string over \<open>{0, |}\<close>, \<open>get_blocks\<close> of the rewriting engine
  returns positive integers whose sum is the number of \<open>0\<close> symbols; it skips empty blocks,
  so its length is at most the number of \<open>|\<close> symbols plus one, with equality when the
  string is non-empty, neither starts nor ends with \<open>|\<close> and has no two adjacent \<open>|\<close>.
  \<open>get_blocks\<close> of core/types keeps empty blocks and satisfies the specified property: the
  sum is the number of \<open>0\<close> characters and the length is the number of \<open>|\<close> plus one unless
  the content is empty or ends in \<open>|\<close>.
\<close>

theorem get_blocks_amended:
  "(set s \<subseteq> {''0'', ''|''} \<longrightarrow>
      (\<exists>bs. get_blocks s = Inr bs
         \<and> sum_list bs = int (count_list s ''0'')
         \<and> (\<forall>b \<in> set bs. 0 < b)
         \<and> length bs \<le> count_list s ''|'' + 1
         \<and> (s \<noteq> [] \<and> hd s \<noteq> ''|'' \<and> last s \<noteq> ''|'' \<and> \<not> has_double_bar s
                \<longrightarrow> length bs = count_list s ''|'' + 1)))
   \<and> blocks_spec CHR ''0'' CHR ''|'' content (core_get_blocks content)"
proof
  show "set s \<subseteq> {''0'', ''|''} \<longrightarrow>
      (\<exists>bs. get_blocks s = Inr bs
         \<and> sum_list bs = int (count_list s ''0'')
         \<and> (\<forall>b \<in> set bs. 0 < b)
         \<and> length bs \<le> count_list s ''|'' + 1
         \<and> (s \<noteq> [] \<and> hd s \<noteq> ''|'' \<and> last s \<noteq> ''|'' \<and> \<not> has_double_bar s
                \<longrightarrow> length bs = count_list s ''|'' + 1))"
  proof
    assume alph: "set s \<subseteq> {''0'', ''|''}"
    from get_blocks_loop_ok [OF this, of 0 "[]"]
    obtain bs c where l: "get_blocks_loop s [] 0 = Inr (bs, c)" "0 \<le> c" "\<forall>b \<in> set bs. 0 < b"
      "sum_list bs + c = int (count_list s ''0'')" "length bs \<le> count_list s ''|''"
      by auto
    have "length bs = count_list s ''|'' \<and> 0 < c"
      if "s \<noteq> [] \<and> hd s \<noteq> ''|'' \<and> last s \<noteq> ''|'' \<and> \<not> has_double_bar s"
    proof -
      have "last s \<in> set s" using that by simp
      then have "last s = ''0''" using alph that by blast
      then show ?thesis
        using get_blocks_loop_exact [OF alph, of 0 "[]"] that l(1) by auto
    qed
    with l show "\<exists>bs. get_blocks s = Inr bs
         \<and> sum_list bs = int (count_list s ''0'')
         \<and> (\<forall>b \<in> set bs. 0 < b)
         \<and> length bs \<le> count_list s ''|'' + 1
         \<and> (s \<noteq> [] \<and> hd s \<noteq> ''|'' \<and> last s \<noteq> ''|'' \<and> \<not> has_double_bar s
                \<longrightarrow> length bs = count_list s ''|'' + 1)"
      by (cases "c > 0") (auto simp: get_blocks_def)
  qed
next
  obtain bs c where l: "core_blocks_loop content [] 0 = (bs, c)"
    by (cases "core_blocks_loop content [] 0")
  note s = core_blocks_loop_sum [OF l] and n = core_blocks_loop_nonneg [OF l]
  show "blocks_spec CHR ''0'' CHR ''|'' content (core_get_blocks content)"
    using s n l by (auto simp: blocks_spec_def core_get_blocks_def)
qed

theorem get_blocks_amended_witness:
  "set (from_str ''00|000|0'') \<subseteq> {''0'', ''|''}
   \<and> get_blocks (from_str ''00|000|0'') = Inr [2, 3, 1]
   \<and> from_str ''00|000|0'' \<noteq> [] \<and> hd (from_str ''00|000|0'') \<noteq> ''|''
   \<and> last (from_str ''00|000|0'') \<noteq> ''|'' \<and> \<not> has_double_bar (from_str ''00|000|0'')
   \<and> length [2, 3, 1 :: int] = count_list (from_str ''00|000|0'') ''|'' + 1
   \<and> core_get_blocks ''0||0'' = [1, 0, 1]
   \<and> blocks_spec CHR ''0'' CHR ''|'' ''0||0'' [1, 0, 1]"
  using get_blocks_amended [of "from_str ''00|000|0''" "''0||0''"]
  by (simp add: get_blocks_def from_str_def core_get_blocks_def blocks_spec_def)

text \<open>
  The claim as stated fails for the engine's \<open>get_blocks\<close>: on \<open>"|0"\<close> it returns \<open>[1]\<close>,
  of length 1, where the number of \<open>|\<close> plus one is 2.
\<close>

theorem get_blocks_counterexample:
  "get_blocks (from_str ''|0'') = Inr [1] \<and> \<not> blocks_spec ''0'' ''|'' (from_str ''|0'') [1]"
  by (simp add: get_blocks_def from_str_def blocks_spec_def)


subsection \<open>M-locality\<close>

lemma overlaps_within_mono: "m \<le> m' \<Longrightarrow> overlaps_within m ovs \<Longrightarrow> overlaps_within m' ovs"
  by (induction ovs) (auto split: if_splits)

text \<open>
  Claim C8. \<open>check_m_locality\<close> is monotone in its bound: if it holds for \<open>m\<close> and
  \<open>m \<le> m'\<close>, it holds for \<open>m'\<close>.
\<close>

theorem check_m_locality_mono:
  "m \<le> m' \<Longrightarrow> check_m_locality rules m \<Longrightarrow> check_m_locality rules m'"
  unfolding check_m_locality_def Let_def by (rule overlaps_within_mono)

lemma check_m_locality_cycle_1: "check_m_locality rules_cycle 1"
  by (simp add: check_m_locality_def rules_cycle_def from_str_def str_of_def
      find_all_overlaps_def find_suffix_prefix_overlap_def py_suffix_def enumerate_eq_zip
      upt_conv_Cons Let_def)

lemma check_m_locality_cycle_0: "\<not> check_m_locality rules_cycle 0"
  by (simp add: check_m_locality_def rules_cycle_def from_str_def str_of_def
      find_all_overlaps_def find_suffix_prefix_overlap_def py_suffix_def enumerate_eq_zip
      upt_conv_Cons Let_def)

theorem check_m_locality_mono_witness:
  "(1::int) \<le> 2 \<and> check_m_locality rules_cycle 1 \<and> check_m_locality rules_cycle 2"
  using check_m_locality_mono [of 1 2 rules_cycle] check_m_locality_cycle_1 by simp

subsection \<open>Macro expansion\<close>

lemma subst_symbols_absent:
  "symbol macro \<notin> set s \<Longrightarrow> subst_symbols macro s (acc, changed) = (acc @ s, changed)"
  by (induction s arbitrary: acc) auto

lemma expand_pass_absent:
  "\<forall>m \<in> set ms. symbol m \<notin> set s \<Longrightarrow> expand_pass ms (s, changed) = (s, changed)"
  by (induction ms) (auto simp: subst_symbols_absent)

lemma expand_absent:
  assumes "\<forall>m \<in> set (macros d). symbol m \<notin> set s"
  shows "expand d s = s"
proof -
  have "expand d s = expand_loop (macros d) s False 1"
    unfolding expand_def
    by (subst expand_loop.simps) (simp add: expand_pass_absent [OF assms])
  also have "\<dots> = s" by (subst expand_loop.simps) simp
  finally show ?thesis .
qed

text \<open>
  Claim C9. If no symbol of \<open>s\<close> is the symbol of a macro of the dictionary \<open>d\<close>, then
  \<open>d.expand(s)\<close> is \<open>s\<close>, and expanding the result again leaves it unchanged.
\<close>

theorem expand_without_macro_symbols:
  assumes "\<forall>m \<in> set (macros d). symbol m \<notin> set s"
  shows "expand d s = s \<and> expand d (expand d s) = expand d s"
  using expand_absent [OF assms] by simp

theorem expand_without_macro_symbols_witness:
  "macros (add_macro empty_dictionary macro_A) = [macro_A]
   \<and> symbol macro_A \<notin> set (from_str ''0|00'')
   \<and> expand (add_macro empty_dictionary macro_A) (from_str ''0|00'') = from_str ''0|00''
   \<and> expand (add_macro empty_dictionary macro_A)
        (expand (add_macro empty_dictionary macro_A) (from_str ''0|00''))
      = expand (add_macro empty_dictionary macro_A) (from_str ''0|00'')"
proof -
  have m: "macros (add_macro empty_dictionary macro_A) = [macro_A]"
    by (simp add: add_macro_def empty_dictionary_def Let_def)
  have a: "symbol macro_A \<notin> set (from_str ''0|00'')"
    by (simp add: macro_A_def from_str_def)
  have h: "\<forall>m \<in> set (macros (add_macro empty_dictionary macro_A)).
             symbol m \<notin> set (from_str ''0|00'')"
    using m a by simp
  show ?thesis using m a expand_without_macro_symbols [OF h] by simp
qed

lemma expand_example: "expand (add_macro empty_dictionary macro_A) [''A'', ''|'', ''A''] = from_str ''00|00''"
  by (simp add: expand_def add_macro_def empty_dictionary_def macro_A_def from_str_def Let_def)

subsection \<open>The two checks\<close>

lemma confluence_loop_iff:
  "confluence_loop all_rules sd ts \<longleftrightarrow> \<not> (\<exists>t \<in> set ts. diverges all_rules sd t)"
proof (induction ts)
  case Nil
  show ?case by simp
next
  case (Cons t ts)
  show ?case
  proof (cases "all_applications all_rules t")
    case Nil
    then show ?thesis using Cons.IH by (simp add: diverges_def)
  next
    case (Cons a1 as)
    note c1 = this
    show ?thesis
    proof (cases as)
      case Nil
      then show ?thesis using Cons.IH c1 by (simp add: diverges_def)
    next
      case (Cons a2 as')
      then show ?thesis using Cons.IH c1 by (auto simp: diverges_def Let_def)
    qed
  qed
qed

text \<open>
  Claim C5. \<open>LocalConfluenceChecker.check\<close> returns \<open>False\<close> exactly when, for one of the
  first 20 critical strings (the pairwise concatenations of the left-hand sides of the
  combined rule set, followed by the left-hand sides), the first two one-step
  applications give distinct successors whose bounded-reach closures (depth
  \<open>search_depth\<close>, width 50, all levels united) are disjoint; otherwise it returns \<open>True\<close>.
\<close>

theorem confluence_check_iff:
  "LocalConfluenceChecker_check original_rules macro search_depth = False
   \<longleftrightarrow> (\<exists>t \<in> set (take 20 (generate_critical_pairs (original_rules @ rules_add macro))).
          diverges (original_rules @ rules_add macro) search_depth t)"
  by (simp add: LocalConfluenceChecker_check_def Let_def confluence_loop_iff)

lemma bisimulation_loop_iff:
  "bisimulation_loop old_rules new_rules md ts \<longleftrightarrow>
     \<not> (\<exists>t \<in> set ts. 2 * card (symmetric_difference (final_level old_rules t md)
                                    (final_level new_rules t md))
                        > card (final_level old_rules t md))"
  by (induction ts) (auto simp: Let_def)

lemma generate_test_strings_short: "length (generate_test_strings ml) \<le> 10"
proof -
  have *: "length (concat (map (\<lambda>n. from_str (replicate n CHR ''0'')
                       # (if n \<ge> 2 then [from_str (take n (concat (replicate (n div 2) ''0|'')))]
                          else [])) xs)) \<le> 2 * length xs" for xs :: "nat list"
    by (induction xs) auto
  have "length [1 ..< nat (min (ml + 1) 6)] \<le> 5" by auto
  then show ?thesis
    unfolding generate_test_strings_def
    using * [of "[1 ..< nat (min (ml + 1) 6)]"] by linarith
qed

text \<open>
  Claim C6. \<open>BoundedBisimulation.check\<close> returns \<open>False\<close> exactly when, for one of the
  generated test strings (at most nine, so the cut at ten removes none), the symmetric
  difference of the level-\<open>max_depth\<close> sets of the original and of the macro-augmented
  system has more than half as many elements as the original system's set; otherwise it
  returns \<open>True\<close>.
\<close>

theorem bisimulation_check_iff:
  "(BoundedBisimulation_check original_rules macro max_length max_depth = False
    \<longleftrightarrow> (\<exists>t \<in> set (take 10 (generate_test_strings max_length)).
           2 * card (symmetric_difference
                       (final_level original_rules t max_depth)
                       (final_level (original_rules @ rules_add macro) t max_depth))
             > card (final_level original_rules t max_depth)))
   \<and> take 10 (generate_test_strings max_length) = generate_test_strings max_length"
  using generate_test_strings_short [of max_length]
  by (simp add: BoundedBisimulation_check_def bisimulation_loop_iff)

lemma confluence_macro_A: "LocalConfluenceChecker_check [] macro_A 0 = False"
  by (simp add: LocalConfluenceChecker_check_def generate_critical_pairs_def macro_A_def
      reach_closure_def bounded_reach_def engine_eval)

lemma confluence_macro_plain: "LocalConfluenceChecker_check rules_join macro_plain 1"
  by (simp add: LocalConfluenceChecker_check_def generate_critical_pairs_def macro_plain_def
      rules_join_def reach_closure_def bounded_reach_def engine_eval)

theorem confluence_check_iff_witness:
  "LocalConfluenceChecker_check [] macro_A 0 = False
   \<and> (\<exists>t \<in> set (take 20 (generate_critical_pairs ([] @ rules_add macro_A))).
          diverges ([] @ rules_add macro_A) 0 t)
   \<and> LocalConfluenceChecker_check rules_join macro_plain 1
   \<and> \<not> (\<exists>t \<in> set (take 20 (generate_critical_pairs (rules_join @ rules_add macro_plain))).
          diverges (rules_join @ rules_add macro_plain) 1 t)"
  using confluence_check_iff [of "[]" macro_A 0] confluence_check_iff [of rules_join macro_plain 1]
    confluence_macro_A confluence_macro_plain
  by simp

lemma bisimulation_macro_A: "BoundedBisimulation_check [] macro_A 2 1 = False"
  by (simp add: BoundedBisimulation_check_def generate_test_strings_def macro_A_def
      final_level_def symmetric_difference_def bounded_reach_def engine_eval)

lemma bisimulation_macro_plain: "BoundedBisimulation_check rules_join macro_plain ml md"
  by (simp add: BoundedBisimulation_check_def bisimulation_loop_iff macro_plain_def
      symmetric_difference_def)

theorem bisimulation_check_iff_witness:
  "BoundedBisimulation_check [] macro_A 2 1 = False
   \<and> (\<exists>t \<in> set (take 10 (generate_test_strings 2)).
          2 * card (symmetric_difference (final_level [] t 1)
                      (final_level ([] @ rules_add macro_A) t 1))
            > card (final_level [] t 1))
   \<and> BoundedBisimulation_check rules_join macro_plain 2 1"
proof -
  have "\<exists>t \<in> set (take 10 (generate_test_strings 2)).
          2 * card (symmetric_difference (final_level [] t 1)
                      (final_level ([] @ rules_add macro_A) t 1))
            > card (final_level [] t 1)"
    using bisimulation_check_iff [of "[]" macro_A 2 1] bisimulation_macro_A by blast
  then show ?thesis
    using bisimulation_macro_A bisimulation_macro_plain by blast
qed

subsection \<open>Admission to the dictionary\<close>

lemma confluence_check_verified:
  "LocalConfluenceChecker_check rules (m\<lparr>verified := b\<rparr>) sd = LocalConfluenceChecker_check rules m sd"
  by (simp add: LocalConfluenceChecker_check_def)

lemma bisimulation_check_verified:
  "BoundedBisimulation_check rules (m\<lparr>verified := b\<rparr>) ml md = BoundedBisimulation_check rules m ml md"
  by (simp add: BoundedBisimulation_check_def)

lemma add_macro_fields:
  "macros (add_macro d macro) = macros d @ [macro]"
  "version (add_macro d macro) = version d + 1"
  "history (add_macro d macro) = history d @
      [\<lparr>entry_version = version d + 1, entry_action = ''add'', entry_macro = macro_str macro,
        entry_symbol = symbol macro\<rparr>]"
  by (simp_all add: add_macro_def Let_def)

lemma admit_passes:
  "admit (step_rules c) (step_search_depth c) (step_max_length c) (step_max_depth c) d
      (step_macro c)
     = (if passes_checks c then add_macro d ((step_macro c)\<lparr>verified := True\<rparr>) else d)"
  by (simp add: admit_def passes_checks_def)

lemma admit_all_fields:
  "macros (admit_all d steps)
     = macros d @ map (\<lambda>c. (step_macro c)\<lparr>verified := True\<rparr>) (filter passes_checks steps)
   \<and> version (admit_all d steps) = version d + int (length (filter passes_checks steps))
   \<and> length (history (admit_all d steps))
       = length (history d) + length (filter passes_checks steps)"
proof (induction steps arbitrary: d)
  case Nil
  show ?case by simp
next
  case (Cons c steps)
  show ?case
  proof (cases "passes_checks c")
    case True
    then show ?thesis
      using Cons.IH [of "add_macro d ((step_macro c)\<lparr>verified := True\<rparr>)"]
      by (simp add: admit_passes add_macro_fields)
  next
    case False
    then show ?thesis using Cons.IH [of d] by (simp add: admit_passes)
  qed
qed

lemma admitted_macro_checked:
  assumes "m \<in> set (macros (admit_all empty_dictionary steps))"
  shows "verified m
         \<and> (\<exists>c \<in> set steps. m = (step_macro c)\<lparr>verified := True\<rparr>
               \<and> LocalConfluenceChecker_check (step_rules c) m (step_search_depth c)
               \<and> BoundedBisimulation_check (step_rules c) m
                     (step_max_length c) (step_max_depth c))"
proof -
  have "m \<in> set (map (\<lambda>c. (step_macro c)\<lparr>verified := True\<rparr>) (filter passes_checks steps))"
    using assms admit_all_fields [of empty_dictionary steps]
    by (simp add: empty_dictionary_def)
  then obtain c where c: "c \<in> set steps" "passes_checks c"
    "m = (step_macro c)\<lparr>verified := True\<rparr>" by auto
  have "LocalConfluenceChecker_check (step_rules c) m (step_search_depth c)"
    "BoundedBisimulation_check (step_rules c) m (step_max_length c) (step_max_depth c)"
    using c(2,3) by (simp_all add: passes_checks_def confluence_check_verified
        bisimulation_check_verified)
  then show ?thesis using c(1,3) by auto
qed

text \<open>
  Claim C1 (amended). \<open>add_macro\<close> itself checks nothing: it appends the macro it is
  given, increments the version by one and appends one history record carrying the new
  version. The guard is the pipeline's admission step, which calls \<open>add_macro\<close> (on the
  macro marked verified) only if both the local-confluence check and the
  bounded-bisimulation check return true and otherwise leaves the dictionary unchanged.
  In a dictionary built from the empty one by admission steps alone, the macros are, in
  order, exactly the candidates of the steps at which both checks returned true, marked
  verified: every macro is verified and passed both checks against the rule set and the
  bounds of its own admission step; the version is one plus the number of macros, and
  there is one history record per macro.
\<close>

theorem admission_amended:
  "macros (add_macro d macro) = macros d @ [macro]
   \<and> version (add_macro d macro) = version d + 1
   \<and> history (add_macro d macro) = history d @
        [\<lparr>entry_version = version d + 1, entry_action = ''add'',
          entry_macro = macro_str macro, entry_symbol = symbol macro\<rparr>]
   \<and> admit rules sd ml md d macro =
        (if LocalConfluenceChecker_check rules macro sd \<and> BoundedBisimulation_check rules macro ml md
         then add_macro d (macro\<lparr>verified := True\<rparr>) else d)
   \<and> macros (admit_all empty_dictionary steps)
       = map (\<lambda>c. (step_macro c)\<lparr>verified := True\<rparr>) (filter passes_checks steps)
   \<and> version (admit_all empty_dictionary steps)
       = 1 + int (length (macros (admit_all empty_dictionary steps)))
   \<and> length (history (admit_all empty_dictionary steps))
       = length (macros (admit_all empty_dictionary steps))
   \<and> (\<forall>m \<in> set (macros (admit_all empty_dictionary steps)).
         verified m
         \<and> (\<exists>c \<in> set steps. m = (step_macro c)\<lparr>verified := True\<rparr>
               \<and> LocalConfluenceChecker_check (step_rules c) m (step_search_depth c)
               \<and> BoundedBisimulation_check (step_rules c) m
                     (step_max_length c) (step_max_depth c)))"
proof -
  have "admit rules sd ml md d macro =
        (if LocalConfluenceChecker_check rules macro sd \<and> BoundedBisimulation_check rules macro ml md
         then add_macro d (macro\<lparr>verified := True\<rparr>) else d)"
    by (simp add: admit_def)
  moreover have "macros (admit_all empty_dictionary steps)
       = map (\<lambda>c. (step_macro c)\<lparr>verified := True\<rparr>) (filter passes_checks steps)"
    "version (admit_all empty_dictionary steps)
       = 1 + int (length (macros (admit_all empty_dictionary steps)))"
    "length (history (admit_all empty_dictionary steps))
       = length (macros (admit_all empty_dictionary steps))"
    using admit_all_fields [of empty_dictionary steps] by (simp_all add: empty_dictionary_def)
  ultimately show ?thesis
    using admitted_macro_checked [of _ steps] add_macro_fields [of d macro] by blast
qed

theorem admission_amended_witness:
  "admit_all empty_dictionary [step_A, step_plain] = add_macro empty_dictionary
      (macro_plain\<lparr>verified := True\<rparr>)
   \<and> macros (admit_all empty_dictionary [step_A, step_plain]) = [macro_plain\<lparr>verified := True\<rparr>]
   \<and> version (admit_all empty_dictionary [step_A, step_plain]) = 2
   \<and> length (history (admit_all empty_dictionary [step_A, step_plain])) = 1
   \<and> \<not> passes_checks step_A \<and> passes_checks step_plain
   \<and> LocalConfluenceChecker_check rules_join (macro_plain\<lparr>verified := True\<rparr>) 1
   \<and> BoundedBisimulation_check rules_join (macro_plain\<lparr>verified := True\<rparr>) 2 1"
proof -
  have a: "\<not> passes_checks step_A"
    using confluence_macro_A by (simp add: passes_checks_def step_A_def)
  have p: "passes_checks step_plain"
    using confluence_macro_plain bisimulation_macro_plain
    by (simp add: passes_checks_def step_plain_def)
  have e: "admit_all empty_dictionary [step_A, step_plain]
             = add_macro empty_dictionary (macro_plain\<lparr>verified := True\<rparr>)"
    using a p by (simp add: admit_passes) (simp add: step_plain_def)
  have m: "macros (admit_all empty_dictionary [step_A, step_plain])
             = [macro_plain\<lparr>verified := True\<rparr>]"
    by (simp only: e) (simp add: add_macro_fields empty_dictionary_def)
  have "macro_plain\<lparr>verified := True\<rparr>
          \<in> set (macros (admit_all empty_dictionary [step_A, step_plain]))"
    by (simp only: m) simp
  with admission_amended [of empty_dictionary macro_plain rules_join 1 2 1 "[step_A, step_plain]"]
  have "\<exists>c \<in> set [step_A, step_plain].
          macro_plain\<lparr>verified := True\<rparr> = (step_macro c)\<lparr>verified := True\<rparr>
          \<and> LocalConfluenceChecker_check (step_rules c) (macro_plain\<lparr>verified := True\<rparr>)
                (step_search_depth c)
          \<and> BoundedBisimulation_check (step_rules c) (macro_plain\<lparr>verified := True\<rparr>)
                (step_max_length c) (step_max_depth c)"
    by blast
  then have "LocalConfluenceChecker_check rules_join (macro_plain\<lparr>verified := True\<rparr>) 1
             \<and> BoundedBisimulation_check rules_join (macro_plain\<lparr>verified := True\<rparr>) 2 1"
    using a
    by (auto simp: step_A_def step_plain_def passes_checks_def macro_A_def macro_plain_def
        confluence_check_verified bisimulation_check_verified)
  moreover have "version (admit_all empty_dictionary [step_A, step_plain]) = 2"
    "length (history (admit_all empty_dictionary [step_A, step_plain])) = 1"
    by (simp_all only: e) (simp_all add: add_macro_fields empty_dictionary_def)
  ultimately show ?thesis using a p e m by blast
qed

text \<open>
  The claim as stated fails for the dictionary's own operation: \<open>add_macro\<close> on the empty
  dictionary accepts a macro that is not verified and for which the local-confluence
  check (here against no other rule, at search depth 0) returns false.
\<close>

theorem admission_counterexample:
  "\<not> list_all verified (macros (add_macro empty_dictionary macro_unchecked))
   \<and> LocalConfluenceChecker_check [] macro_unchecked 0 = False"
proof -
  have "LocalConfluenceChecker_check [] macro_unchecked 0 = False"
    by (simp add: LocalConfluenceChecker_check_def generate_critical_pairs_def
        macro_unchecked_def reach_closure_def bounded_reach_def engine_eval)
  then show ?thesis
    by (simp add: add_macro_fields empty_dictionary_def macro_unchecked_def)
qed

section \<open>Strongly connected components\<close>

lemma graph_cycle_eq:
  "graph_cycle = \<lparr>vertices = {from_str ''0|'', from_str ''00'', from_str ''000''},
      edges = [from_str ''000'' \<mapsto> [from_str ''00''], from_str ''00'' \<mapsto> [from_str ''0|''],
               from_str ''0|'' \<mapsto> [from_str ''00'']]\<rparr>"
  by (auto simp add: graph_cycle_def add_edge_def add_vertex_def empty_graph_def get_neighbors_def
      from_str_def Let_def fun_upd_twist)

lemma find_sccs_cycle:
  "find_sccs graph_cycle [from_str ''000'', from_str ''00'', from_str ''0|'']
     = Some (Inr [\<lparr>nodes = {from_str ''0|'', from_str ''00''}, is_attractor = True\<rparr>,
                  \<lparr>nodes = {from_str ''000''}, is_attractor = False\<rparr>])"
  by (simp add: find_sccs_def graph_cycle_eq strongconnect_def strongconnect_run.simps
      tarjan_init_def enter_def close_component_def lower_def identify_attractors_def
      get_neighbors_def from_str_def insert_commute)

subsection \<open>Graphs built by \<open>add_vertex\<close> and \<open>add_edge\<close>\<close>

text \<open>
  What \<open>add_vertex\<close> and \<open>add_edge\<close> maintain: the vertex set is finite, and every key of
  \<open>edges\<close> and every successor listed under it is a vertex.
\<close>

definition edges_inside :: "Graph \<Rightarrow> bool" where
  "edges_inside g \<longleftrightarrow>
     finite (vertices g)
     \<and> (\<forall>v ns. edges g v = Some ns \<longrightarrow> v \<in> vertices g \<and> set ns \<subseteq> vertices g)"

lemma edges_inside_neighbors:
  assumes "edges_inside g"
  shows "set (get_neighbors g v) \<subseteq> vertices g"
proof (cases "edges g v")
  case None
  then show ?thesis by (simp add: get_neighbors_def)
next
  case (Some ns)
  then have "set ns \<subseteq> vertices g" using assms unfolding edges_inside_def by blast
  then show ?thesis using Some by (simp add: get_neighbors_def)
qed

lemma edges_inside_add_vertex: "edges_inside g \<Longrightarrow> edges_inside (add_vertex g v)"
  unfolding edges_inside_def add_vertex_def by (auto split: if_splits)

lemma edges_inside_add_edge:
  assumes "edges_inside g"
  shows "edges_inside (add_edge g u v)"
proof -
  let ?g = "add_vertex (add_vertex g u) v"
  have e: "edges_inside ?g" using assms by (simp add: edges_inside_add_vertex)
  have uv: "u \<in> vertices ?g" "v \<in> vertices ?g" by (simp_all add: add_vertex_def)
  have n: "set (get_neighbors ?g u) \<subseteq> vertices ?g"
    using e by (rule edges_inside_neighbors)
  have "edges_inside (?g\<lparr>edges := (edges ?g)(u \<mapsto> get_neighbors ?g u @ [v])\<rparr>)"
    using e uv n unfolding edges_inside_def by auto
  then show ?thesis using e by (simp add: add_edge_def Let_def)
qed

lemma built_graph_edges_inside: "built_graph g \<Longrightarrow> edges_inside g"
  by (induction rule: built_graph.induct)
     (simp_all add: edges_inside_add_vertex edges_inside_add_edge,
      simp add: edges_inside_def empty_graph_def)

lemma edges_inside_closed: "edges_inside g \<Longrightarrow> graph_closed g"
  unfolding graph_closed_def using edges_inside_neighbors by blast

lemma built_graph_closed: "built_graph g \<Longrightarrow> graph_closed g \<and> finite (vertices g)"
  using built_graph_edges_inside edges_inside_closed by (auto simp: edges_inside_def)

lemma built_graph_cycle: "built_graph graph_cycle"
  unfolding graph_cycle_def by (intro built_edge built_empty)

subsection \<open>Invariant of the traversal\<close>

text \<open>
  \<open>idx\<close> reads the discovery index of a numbered vertex. The invariant: the stack has no
  repetition and is what \<open>on_stack\<close> holds; the numbered vertices are those of the stack
  and of the emitted components, all of them vertices of the graph; components are
  non-empty, disjoint from the stack and from each other; indices are below the counter
  and decrease from the top of the stack to its bottom.
\<close>

definition idx :: "tarjan_state \<Rightarrow> String \<Rightarrow> int" where
  "idx st v = the (index st v)"

definition tarjan_inv :: "Graph \<Rightarrow> tarjan_state \<Rightarrow> bool" where
  "tarjan_inv g st \<longleftrightarrow>
     distinct (stack st)
     \<and> on_stack st = set (stack st)
     \<and> set (stack st) \<union> \<Union> (nodes ` set (components st)) = dom (index st)
     \<and> dom (lowlink st) = dom (index st)
     \<and> dom (index st) \<subseteq> vertices g
     \<and> (\<forall>c \<in> set (components st). nodes c \<noteq> {} \<and> nodes c \<inter> set (stack st) = {})
     \<and> sorted_wrt (\<lambda>c d. nodes c \<inter> nodes d = {}) (components st)
     \<and> (\<forall>u \<in> dom (index st). idx st u < index_counter st)
     \<and> sorted_wrt (\<lambda>a b. idx st b < idx st a) (stack st)"

text \<open>
  What a call leaves of the state it started from (\<open>grows\<close>), what \<open>_strongconnect(v)\<close>
  establishes (\<open>visit_post\<close>: either the stack is back to what it was and \<open>v\<close> closed a
  component, or \<open>v\<close> stays on the stack with a low-link that is the index of a vertex
  below it), and the invariant of the loop over the neighbours of \<open>v\<close> (\<open>loop_pre\<close>,
  \<open>loop_post\<close>: the low-link of \<open>v\<close> is the index of \<open>v\<close> or of a vertex below it).
\<close>

definition grows :: "tarjan_state \<Rightarrow> tarjan_state \<Rightarrow> bool" where
  "grows st st' \<longleftrightarrow>
     dom (index st) \<subseteq> dom (index st') \<and> (\<forall>u \<in> dom (index st). index st' u = index st u)"

definition visit_post :: "Graph \<Rightarrow> String \<Rightarrow> tarjan_state \<Rightarrow> tarjan_state \<Rightarrow> bool" where
  "visit_post g v st st' \<longleftrightarrow>
     tarjan_inv g st' \<and> grows st st'
     \<and> (\<forall>u \<in> dom (index st). lowlink st' u = lowlink st u)
     \<and> index st' v = Some (index_counter st)
     \<and> ((stack st' = stack st \<and> lowlink st' v = Some (index_counter st))
        \<or> (\<exists>new u. stack st' = new @ v # stack st \<and> u \<in> set (stack st)
                    \<and> lowlink st' v = index st u))"

definition loop_pre :: "Graph \<Rightarrow> String \<Rightarrow> String list \<Rightarrow> tarjan_state \<Rightarrow> bool" where
  "loop_pre g v S0 st \<longleftrightarrow>
     tarjan_inv g st \<and> (\<exists>new. stack st = new @ v # S0)
     \<and> (\<exists>u \<in> set (v # S0). lowlink st v = index st u)"

definition loop_post ::
  "Graph \<Rightarrow> String \<Rightarrow> String list \<Rightarrow> tarjan_state \<Rightarrow> tarjan_state \<Rightarrow> bool" where
  "loop_post g v S0 st st' \<longleftrightarrow>
     loop_pre g v S0 st' \<and> grows st st'
     \<and> (\<forall>u \<in> dom (index st). u \<noteq> v \<longrightarrow> lowlink st' u = lowlink st u)"

lemma grows_refl: "grows st st"
  by (simp add: grows_def)

lemma grows_trans: "grows a b \<Longrightarrow> grows b c \<Longrightarrow> grows a c"
  unfolding grows_def by (metis subsetD subsetI)

lemma grows_lowlink: "grows st (st\<lparr>lowlink := m\<rparr>)"
  by (simp add: grows_def)

lemma grows_idx: "grows st st' \<Longrightarrow> u \<in> dom (index st) \<Longrightarrow> idx st' u = idx st u"
  by (simp add: grows_def idx_def)

lemma tarjan_inv_init: "tarjan_inv g tarjan_init"
  by (simp add: tarjan_inv_def tarjan_init_def)

lemma enter_inv:
  assumes "tarjan_inv g st" and "v \<notin> dom (index st)" and "v \<in> vertices g"
  shows "tarjan_inv g (enter v st)"
proof -
  have stk: "set (stack st) \<subseteq> dom (index st)" using assms(1) by (auto simp: tarjan_inv_def)
  then have vs: "v \<notin> set (stack st)" using assms(2) by blast
  have same: "\<And>u. u \<in> dom (index st) \<Longrightarrow> idx (enter v st) u = idx st u"
    using assms(2) by (auto simp: idx_def enter_def)
  have same': "\<forall>u \<in> set (stack st). idx (enter v st) u = idx st u"
    using same stk by blast
  have new: "idx (enter v st) v = index_counter st" by (simp add: idx_def enter_def)
  have below: "\<And>u. u \<in> dom (index st) \<Longrightarrow> idx st u < index_counter st"
    using assms(1) by (simp add: tarjan_inv_def)
  have "sorted_wrt (\<lambda>a b. idx st b < idx st a) (stack st)"
    using assms(1) by (simp add: tarjan_inv_def)
  then have "sorted_wrt (\<lambda>a b. idx (enter v st) b < idx (enter v st) a) (stack st)"
    by (rule sorted_wrt_mono_rel [rotated]) (simp add: same')
  moreover have "\<forall>b \<in> set (stack st). idx st b < index_counter st"
    using stk below by blast
  then have "\<forall>b \<in> set (stack st). idx (enter v st) b < idx (enter v st) v"
    using same' new by simp
  ultimately have srt: "sorted_wrt (\<lambda>a b. idx (enter v st) b < idx (enter v st) a)
                          (stack (enter v st))"
    by (simp add: enter_def)
  have cnt: "\<forall>u \<in> dom (index (enter v st)). idx (enter v st) u < index_counter (enter v st)"
  proof
    fix u assume "u \<in> dom (index (enter v st))"
    then consider "u = v" | "u \<in> dom (index st)" by (auto simp: enter_def)
    then show "idx (enter v st) u < index_counter (enter v st)"
    proof cases
      case 1
      then show ?thesis using new by (simp add: enter_def)
    next
      case 2
      then show ?thesis using same [OF 2] below [OF 2] by (simp add: enter_def)
    qed
  qed
  have comps: "\<forall>c \<in> set (components st). nodes c \<noteq> {} \<and> nodes c \<inter> set (v # stack st) = {}"
  proof
    fix c assume c: "c \<in> set (components st)"
    then have "nodes c \<subseteq> dom (index st)" using assms(1) by (auto simp: tarjan_inv_def)
    then have "v \<notin> nodes c" using assms(2) by blast
    then show "nodes c \<noteq> {} \<and> nodes c \<inter> set (v # stack st) = {}"
      using assms(1) c by (auto simp: tarjan_inv_def)
  qed
  have rest: "distinct (stack (enter v st))" "on_stack (enter v st) = set (stack (enter v st))"
    "set (stack (enter v st)) \<union> \<Union> (nodes ` set (components (enter v st)))
       = dom (index (enter v st))"
    "dom (lowlink (enter v st)) = dom (index (enter v st))"
    "dom (index (enter v st)) \<subseteq> vertices g"
    "sorted_wrt (\<lambda>c d. nodes c \<inter> nodes d = {}) (components (enter v st))"
    using assms vs by (auto simp: tarjan_inv_def enter_def)
  have comps': "\<forall>c \<in> set (components (enter v st)).
                  nodes c \<noteq> {} \<and> nodes c \<inter> set (stack (enter v st)) = {}"
    using comps by (simp add: enter_def)
  show ?thesis
    unfolding tarjan_inv_def using rest comps' cnt srt by blast
qed

lemma lowlink_update_inv:
  assumes "tarjan_inv g st" and "v \<in> dom (index st)"
  shows "tarjan_inv g (st\<lparr>lowlink := (lowlink st)(v \<mapsto> x)\<rparr>)"
proof -
  have "idx (st\<lparr>lowlink := (lowlink st)(v \<mapsto> x)\<rparr>) = idx st"
    by (rule ext) (simp add: idx_def)
  moreover have "dom ((lowlink st)(v \<mapsto> x)) = dom (lowlink st)"
    using assms by (auto simp: tarjan_inv_def)
  ultimately show ?thesis
    using assms(1) unfolding tarjan_inv_def by auto
qed

lemma pop_component_split:
  "distinct (new @ [v]) \<Longrightarrow> set (new @ [v]) \<subseteq> on_stk \<Longrightarrow>
   pop_component v (new @ v # S0) on_stk acc
     = Inr (S0, on_stk - set (new @ [v]), acc \<union> set (new @ [v]))"
proof (induction new arbitrary: on_stk acc)
  case Nil
  then show ?case by auto
next
  case (Cons w new)
  have "distinct (new @ [v])" "set (new @ [v]) \<subseteq> on_stk - {w}" "w \<noteq> v" "w \<in> on_stk"
    using Cons.prems by auto
  then show ?case using Cons.IH [of "on_stk - {w}" "insert w acc"] by auto
qed

lemma close_inv:
  assumes "tarjan_inv g st" and "stack st = new @ v # S0"
  shows "tarjan_inv g (st\<lparr>stack := S0, on_stack := on_stack st - set (new @ [v]),
            components := components st @ [\<lparr>nodes = set (new @ [v]), is_attractor = False\<rparr>]\<rparr>)"
    (is "tarjan_inv g ?st'")
proof -
  have d: "distinct (new @ v # S0)" and os: "on_stack st = set (new @ v # S0)"
    and dm: "set (new @ v # S0) \<union> \<Union> (nodes ` set (components st)) = dom (index st)"
    and cs: "\<forall>c \<in> set (components st). nodes c \<noteq> {} \<and> nodes c \<inter> set (new @ v # S0) = {}"
    and sc: "sorted_wrt (\<lambda>c d. nodes c \<inter> nodes d = {}) (components st)"
    and ss: "sorted_wrt (\<lambda>a b. idx st b < idx st a) (new @ v # S0)"
    using assms unfolding tarjan_inv_def by simp_all
  have i: "idx ?st' = idx st" by (rule ext) (simp add: idx_def)
  have 1: "distinct (stack ?st')" using d by simp
  have 2: "on_stack ?st' = set (stack ?st')" using d os by auto
  have 3: "set (stack ?st') \<union> \<Union> (nodes ` set (components ?st')) = dom (index ?st')"
    using dm by auto
  have 4: "dom (lowlink ?st') = dom (index ?st')" "dom (index ?st') \<subseteq> vertices g"
    "\<forall>u \<in> dom (index ?st'). idx ?st' u < index_counter ?st'"
    using assms(1) unfolding tarjan_inv_def i by simp_all
  have 5: "\<forall>c \<in> set (components ?st'). nodes c \<noteq> {} \<and> nodes c \<inter> set (stack ?st') = {}"
    using cs d by auto
  have 6: "sorted_wrt (\<lambda>c d. nodes c \<inter> nodes d = {}) (components ?st')"
    using sc cs by (auto simp: sorted_wrt_append)
  have 7: "sorted_wrt (\<lambda>a b. idx ?st' b < idx ?st' a) (stack ?st')"
    using ss unfolding i by (simp add: sorted_wrt_append)
  show ?thesis unfolding tarjan_inv_def using 1 2 3 4 5 6 7 by blast
qed

lemma stack_order:
  assumes "tarjan_inv g st" and "stack st = new @ v # S0"
  shows "\<forall>u \<in> set new. idx st v < idx st u" and "\<forall>u \<in> set S0. idx st u < idx st v"
proof -
  have "sorted_wrt (\<lambda>a b. idx st b < idx st a) (new @ v # S0)"
    using assms by (simp add: tarjan_inv_def)
  then show "\<forall>u \<in> set new. idx st v < idx st u" and "\<forall>u \<in> set S0. idx st u < idx st v"
    by (auto simp: sorted_wrt_append)
qed

lemma lower_loop_pre:
  assumes pre: "loop_pre g v S0 st" and l: "lowlink st v = Some l"
    and x: "idx st v < x \<or> (\<exists>u \<in> set (v # S0). Some x = index st u)"
  shows "loop_pre g v S0 (st\<lparr>lowlink := (lowlink st)(v \<mapsto> min l x)\<rparr>)"
proof -
  obtain new where stk: "stack st = new @ v # S0" and inv: "tarjan_inv g st"
    using pre by (auto simp: loop_pre_def)
  obtain u0 where u0: "u0 \<in> set (v # S0)" "lowlink st v = index st u0"
    using pre by (auto simp: loop_pre_def)
  have vdom: "v \<in> dom (index st)" using inv stk by (auto simp: tarjan_inv_def)
  have "l = idx st u0" using l u0 by (simp add: idx_def)
  then have le: "l \<le> idx st v" using u0(1) stack_order(2) [OF inv stk] by auto
  have inv': "tarjan_inv g (st\<lparr>lowlink := (lowlink st)(v \<mapsto> min l x)\<rparr>)"
    using lowlink_update_inv [OF inv vdom] .
  have "\<exists>u \<in> set (v # S0). Some (min l x) = index st u"
  proof (cases "idx st v < x")
    case True
    then have "min l x = l" using le by simp
    then show ?thesis using u0 l by auto
  next
    case False
    then obtain u where "u \<in> set (v # S0)" "Some x = index st u" using x by blast
    then show ?thesis using u0 l by (cases "l \<le> x") (auto simp: min_def)
  qed
  then show ?thesis
    unfolding loop_pre_def using inv' stk by auto
qed

subsection \<open>Total correctness of the traversal\<close>

lemma run_Visit:
  "strongconnect_run g (Visit v) st =
     Option.bind (strongconnect_run g (Neighbors v (get_neighbors g v)) (enter v st))
       (\<lambda>r. case r of Inl e \<Rightarrow> Some (Inl e) | Inr st' \<Rightarrow> Some (close_component v st'))"
  by (subst strongconnect_run.simps) simp

lemma run_Nil: "strongconnect_run g (Neighbors v []) st = Some (Inr st)"
  by (subst strongconnect_run.simps) simp

lemma run_Cons:
  "strongconnect_run g (Neighbors v (w # ws)) st =
     (if w \<notin> dom (index st) then
        Option.bind (strongconnect_run g (Visit w) st)
          (\<lambda>r. case r of
                 Inl e \<Rightarrow> Some (Inl e)
               | Inr st' \<Rightarrow>
                   (case lower v (lowlink st' w) st' of
                      Inl e \<Rightarrow> Some (Inl e)
                    | Inr st'' \<Rightarrow> strongconnect_run g (Neighbors v ws) st''))
      else if w \<in> on_stack st then
        (case lower v (index st w) st of
           Inl e \<Rightarrow> Some (Inl e)
         | Inr st' \<Rightarrow> strongconnect_run g (Neighbors v ws) st')
      else strongconnect_run g (Neighbors v ws) st)"
  by (subst strongconnect_run.simps) simp

lemma card_unvisited_mono:
  assumes "finite (vertices g)" and "grows st st'"
  shows "card (vertices g - dom (index st')) \<le> card (vertices g - dom (index st))"
proof (rule card_mono)
  show "finite (vertices g - dom (index st))" using assms(1) by simp
  show "vertices g - dom (index st') \<subseteq> vertices g - dom (index st)"
    using assms(2) by (auto simp: grows_def)
qed

lemma inv_stack_dom: "tarjan_inv g st \<Longrightarrow> set (stack st) \<subseteq> dom (index st)"
  unfolding tarjan_inv_def by blast

lemma neighbors_correct:
  assumes IH: "\<And>w st. card (vertices g - dom (index st)) < n \<Longrightarrow> tarjan_inv g st \<Longrightarrow>
                 w \<notin> dom (index st) \<Longrightarrow> w \<in> vertices g \<Longrightarrow>
                 \<exists>st'. strongconnect_run g (Visit w) st = Some (Inr st') \<and> visit_post g w st st'"
    and fin: "finite (vertices g)"
  shows "card (vertices g - dom (index st)) < n \<Longrightarrow> loop_pre g v S0 st \<Longrightarrow>
         set ws \<subseteq> vertices g \<Longrightarrow>
         \<exists>st'. strongconnect_run g (Neighbors v ws) st = Some (Inr st') \<and> loop_post g v S0 st st'"
proof (induction ws arbitrary: st)
  case Nil
  show ?case using Nil.prems(2) by (simp add: run_Nil loop_post_def grows_refl)
next
  case (Cons w ws)
  note pre = Cons.prems(2)
  obtain new where stk: "stack st = new @ v # S0" and inv: "tarjan_inv g st"
    using pre by (auto simp: loop_pre_def)
  have sdom: "set (stack st) \<subseteq> dom (index st)" using inv by (rule inv_stack_dom)
  have vdom: "v \<in> dom (index st)" using sdom stk by auto
  obtain u0 where u0: "u0 \<in> set (v # S0)" "lowlink st v = index st u0"
    using pre by (auto simp: loop_pre_def)
  have "u0 \<in> dom (index st)" using u0(1) sdom stk by auto
  then obtain l where l: "lowlink st v = Some l" using u0(2) by auto
  have wsV: "set ws \<subseteq> vertices g" and wV: "w \<in> vertices g" using Cons.prems(3) by auto
  have step: "\<exists>st'. strongconnect_run g (Neighbors v ws) st2 = Some (Inr st')
                   \<and> loop_post g v S0 st st'"
    if p2: "loop_pre g v S0 st2" and g2: "grows st st2"
      and f2: "\<forall>u \<in> dom (index st). u \<noteq> v \<longrightarrow> lowlink st2 u = lowlink st u" for st2
  proof -
    have "card (vertices g - dom (index st2)) < n"
      using card_unvisited_mono [OF fin g2] Cons.prems(1) by simp
    from Cons.IH [OF this p2 wsV] obtain st' where
      r: "strongconnect_run g (Neighbors v ws) st2 = Some (Inr st')"
      and p: "loop_post g v S0 st2 st'" by blast
    have "grows st st'" using g2 p grows_trans by (auto simp: loop_post_def)
    moreover have "\<forall>u \<in> dom (index st). u \<noteq> v \<longrightarrow> lowlink st' u = lowlink st u"
    proof (intro ballI impI)
      fix u assume u: "u \<in> dom (index st)" "u \<noteq> v"
      then have "u \<in> dom (index st2)" using g2 by (auto simp: grows_def)
      then have "lowlink st' u = lowlink st2 u" using p u(2) by (simp add: loop_post_def)
      then show "lowlink st' u = lowlink st u" using f2 u by simp
    qed
    ultimately have "loop_post g v S0 st st'" using p by (simp add: loop_post_def)
    then show ?thesis using r by blast
  qed
  show ?case
  proof (cases "w \<in> dom (index st)")
    case False
    from IH [OF Cons.prems(1) inv False wV] obtain st1 where
      run: "strongconnect_run g (Visit w) st = Some (Inr st1)"
      and post: "visit_post g w st st1" by blast
    have g1: "grows st st1" and inv1: "tarjan_inv g st1"
      and lf: "\<forall>u \<in> dom (index st). lowlink st1 u = lowlink st u"
      using post by (simp_all add: visit_post_def)
    have l1: "lowlink st1 v = Some l" using lf vdom l by simp
    have iv: "idx st1 v = idx st v" using grows_idx [OF g1 vdom] .
    have "\<exists>new'. stack st1 = new' @ v # S0"
      using post stk unfolding visit_post_def by (metis append.assoc append_Cons)
    moreover have "\<exists>u \<in> set (v # S0). lowlink st1 v = index st1 u"
    proof -
      have "index st1 u0 = index st u0" using g1 \<open>u0 \<in> dom (index st)\<close> by (simp add: grows_def)
      then have "lowlink st1 v = index st1 u0" using u0(2) l1 l by simp
      then show ?thesis using u0(1) by blast
    qed
    ultimately have pre1: "loop_pre g v S0 st1" using inv1 by (simp add: loop_pre_def)
    have "\<exists>lw. lowlink st1 w = Some lw
            \<and> (idx st1 v < lw \<or> (\<exists>u \<in> set (v # S0). Some lw = index st1 u))"
    proof -
      consider (popped) "lowlink st1 w = Some (index_counter st)"
        | (kept) u where "u \<in> set (stack st)" "lowlink st1 w = index st u"
        using post unfolding visit_post_def by blast
      then show ?thesis
      proof cases
        case popped
        have "idx st v < index_counter st" using inv vdom by (simp add: tarjan_inv_def)
        then show ?thesis using popped iv by simp
      next
        case kept
        have ud: "u \<in> dom (index st)" using kept(1) sdom by blast
        then have eq: "index st u = Some (idx st u)" by (auto simp: idx_def)
        have eq1: "index st1 u = index st u" using g1 ud by (simp add: grows_def)
        show ?thesis
        proof (cases "u \<in> set new")
          case True
          then have "idx st v < idx st u" using stack_order(1) [OF inv stk] by blast
          then show ?thesis using kept(2) eq iv by simp
        next
          case False
          then have m: "u \<in> set (v # S0)" using kept(1) stk by auto
          have "Some (idx st u) = index st1 u" using eq eq1 by simp
          then have "\<exists>u' \<in> set (v # S0). Some (idx st u) = index st1 u'" using m by blast
          then show ?thesis using kept(2) eq by simp
        qed
      qed
    qed
    then obtain lw where lw: "lowlink st1 w = Some lw"
      and lwx: "idx st1 v < lw \<or> (\<exists>u \<in> set (v # S0). Some lw = index st1 u)" by blast
    let ?st2 = "st1\<lparr>lowlink := (lowlink st1)(v \<mapsto> min l lw)\<rparr>"
    have pre2: "loop_pre g v S0 ?st2" using lower_loop_pre [OF pre1 l1 lwx] .
    have low: "lower v (lowlink st1 w) st1 = Inr ?st2" by (simp add: lower_def l1 lw)
    have g2: "grows st ?st2" using grows_trans [OF g1 grows_lowlink] .
    have f2: "\<forall>u \<in> dom (index st). u \<noteq> v \<longrightarrow> lowlink ?st2 u = lowlink st u"
      using lf by simp
    from step [OF pre2 g2 f2] show ?thesis
      using False run low by (simp add: run_Cons)
  next
    case True
    note visited = this
    show ?thesis
    proof (cases "w \<in> on_stack st")
      case True
      then have ws: "w \<in> set (stack st)" using inv by (simp add: tarjan_inv_def)
      have eq: "index st w = Some (idx st w)" using visited by (auto simp: idx_def)
      have x: "idx st v < idx st w \<or> (\<exists>u \<in> set (v # S0). Some (idx st w) = index st u)"
      proof (cases "w \<in> set new")
        case True
        then show ?thesis using stack_order(1) [OF inv stk] by blast
      next
        case False
        then have m: "w \<in> set (v # S0)" using ws stk by auto
        have "Some (idx st w) = index st w" using eq by simp
        then show ?thesis using m by blast
      qed
      let ?st2 = "st\<lparr>lowlink := (lowlink st)(v \<mapsto> min l (idx st w))\<rparr>"
      have pre2: "loop_pre g v S0 ?st2" using lower_loop_pre [OF pre l x] .
      have low: "lower v (index st w) st = Inr ?st2" by (simp add: lower_def l eq)
      have f2: "\<forall>u \<in> dom (index st). u \<noteq> v \<longrightarrow> lowlink ?st2 u = lowlink st u" by simp
      from step [OF pre2 grows_lowlink f2] show ?thesis
        using visited True low by (simp add: run_Cons)
    next
      case False
      from step [OF pre grows_refl] show ?thesis
        using visited False by (simp add: run_Cons)
    qed
  qed
qed

lemma visit_correct:
  assumes fin: "finite (vertices g)" and closed: "graph_closed g"
  shows "card (vertices g - dom (index st)) = n \<Longrightarrow> tarjan_inv g st \<Longrightarrow>
         v \<notin> dom (index st) \<Longrightarrow> v \<in> vertices g \<Longrightarrow>
         \<exists>st'. strongconnect_run g (Visit v) st = Some (Inr st') \<and> visit_post g v st st'"
proof (induction n arbitrary: v st rule: less_induct)
  case (less n)
  note inv = less.prems(2) and fresh = less.prems(3) and vV = less.prems(4)
  let ?st1 = "enter v st"
  have inv1: "tarjan_inv g ?st1" using enter_inv [OF inv fresh vV] .
  have dom1: "dom (index ?st1) = insert v (dom (index st))" by (simp add: enter_def)
  have "vertices g - dom (index ?st1) = (vertices g - dom (index st)) - {v}"
    unfolding dom1 by blast
  moreover have "v \<in> vertices g - dom (index st)" using fresh vV by simp
  ultimately have c1: "card (vertices g - dom (index ?st1)) < n"
    using fin less.prems(1) by (metis card_Diff1_less finite_Diff)
  have i1: "index ?st1 v = Some (index_counter st)" by (simp add: enter_def)
  have "lowlink ?st1 v = index ?st1 v" by (simp add: enter_def)
  moreover have "stack ?st1 = [] @ v # stack st" by (simp add: enter_def)
  ultimately have pre1: "loop_pre g v (stack st) ?st1"
    using inv1 unfolding loop_pre_def by (metis list.set_intros(1))
  have ns: "set (get_neighbors g v) \<subseteq> vertices g"
    using closed vV by (simp add: graph_closed_def)
  have g01: "grows st ?st1" using fresh by (auto simp: grows_def enter_def)
  have f01: "\<forall>u \<in> dom (index st). lowlink ?st1 u = lowlink st u"
    using fresh by (auto simp: enter_def)
  have IH: "\<exists>st''. strongconnect_run g (Visit w) st' = Some (Inr st'') \<and> visit_post g w st' st''"
    if "card (vertices g - dom (index st')) < n" "tarjan_inv g st'" "w \<notin> dom (index st')"
      "w \<in> vertices g" for w st'
    using less.IH [OF that(1) refl that(2) that(3) that(4)] .
  from neighbors_correct [of g n, OF IH fin c1 pre1 ns] obtain st2 where
    run2: "strongconnect_run g (Neighbors v (get_neighbors g v)) ?st1 = Some (Inr st2)"
    and post2: "loop_post g v (stack st) ?st1 st2" by blast
  obtain new where stk2: "stack st2 = new @ v # stack st"
    using post2 by (auto simp: loop_post_def loop_pre_def)
  obtain u where u: "u \<in> set (v # stack st)" "lowlink st2 v = index st2 u"
    using post2 by (auto simp: loop_post_def loop_pre_def)
  have inv2: "tarjan_inv g st2" and g12: "grows ?st1 st2"
    and f12: "\<forall>x \<in> dom (index ?st1). x \<noteq> v \<longrightarrow> lowlink st2 x = lowlink ?st1 x"
    using post2 by (simp_all add: loop_post_def loop_pre_def)
  have i2: "index st2 v = Some (index_counter st)"
    using g12 i1 dom1 by (simp add: grows_def)
  have gs: "grows st st2" using grows_trans [OF g01 g12] .
  have fr: "\<forall>x \<in> dom (index st). lowlink st2 x = lowlink st x"
  proof
    fix x assume x: "x \<in> dom (index st)"
    then have "x \<noteq> v" "x \<in> dom (index ?st1)" using fresh dom1 by auto
    then have "lowlink st2 x = lowlink ?st1 x" using f12 by blast
    then show "lowlink st2 x = lowlink st x" using f01 x by simp
  qed
  have sdom2: "set (stack st2) \<subseteq> dom (index st2)" using inv2 by (rule inv_stack_dom)
  then have "u \<in> dom (index st2)" using u(1) stk2 by auto
  then obtain l where l2: "lowlink st2 v = Some l" using u(2) by auto
  show ?case
  proof (cases "l = index_counter st")
    case True
    let ?st' = "st2\<lparr>stack := stack st, on_stack := on_stack st2 - set (new @ [v]),
          components := components st2 @ [\<lparr>nodes = set (new @ [v]), is_attractor = False\<rparr>]\<rparr>"
    have "distinct (new @ v # stack st)" "on_stack st2 = set (new @ v # stack st)"
      using inv2 stk2 by (simp_all add: tarjan_inv_def)
    then have "distinct (new @ [v])" "set (new @ [v]) \<subseteq> on_stack st2" by auto
    from pop_component_split [OF this, of "stack st" "{}"]
    have pop: "pop_component v (stack st2) (on_stack st2) {}
                 = Inr (stack st, on_stack st2 - set (new @ [v]), set (new @ [v]))"
      using stk2 by simp
    have close: "close_component v st2 = Inr ?st'"
      by (simp add: close_component_def l2 i2 True pop)
    have inv': "tarjan_inv g ?st'" using close_inv [OF inv2 stk2] .
    have "grows st ?st'" using gs by (simp add: grows_def)
    moreover have "\<forall>x \<in> dom (index st). lowlink ?st' x = lowlink st x" using fr by simp
    moreover have "index ?st' v = Some (index_counter st)" using i2 by simp
    moreover have "stack ?st' = stack st \<and> lowlink ?st' v = Some (index_counter st)"
      using l2 True by simp
    ultimately have "visit_post g v st ?st'" using inv' unfolding visit_post_def by blast
    moreover have "strongconnect_run g (Visit v) st = Some (Inr ?st')"
      by (simp add: run_Visit run2 close)
    ultimately show ?thesis by blast
  next
    case False
    have close: "close_component v st2 = Inr st2"
      by (simp add: close_component_def l2 i2 False)
    have "u \<noteq> v" using u(2) l2 i2 False by auto
    then have us: "u \<in> set (stack st)" using u(1) by simp
    then have "u \<in> dom (index st)" using inv_stack_dom [OF inv] by blast
    then have "index st2 u = index st u" using gs by (simp add: grows_def)
    then have "\<exists>new u. stack st2 = new @ v # stack st \<and> u \<in> set (stack st)
                  \<and> lowlink st2 v = index st u"
      using stk2 us u(2) by auto
    then have "visit_post g v st st2"
      using inv2 gs fr i2 unfolding visit_post_def by blast
    moreover have "strongconnect_run g (Visit v) st = Some (Inr st2)"
      by (simp add: run_Visit run2 close)
    ultimately show ?thesis by blast
  qed
qed

lemma find_sccs_loop_correct:
  assumes fin: "finite (vertices g)" and closed: "graph_closed g"
  shows "tarjan_inv g st \<Longrightarrow> stack st = [] \<Longrightarrow> set vs \<subseteq> vertices g \<Longrightarrow>
         \<exists>st'. find_sccs_loop g vs st = Some (Inr st') \<and> tarjan_inv g st' \<and> stack st' = []
               \<and> dom (index st) \<union> set vs \<subseteq> dom (index st')"
proof (induction vs arbitrary: st)
  case Nil
  then show ?case by simp
next
  case (Cons v vs)
  show ?case
  proof (cases "v \<in> dom (index st)")
    case True
    from Cons.IH [OF Cons.prems(1) Cons.prems(2)] Cons.prems(3) obtain st' where
      "find_sccs_loop g vs st = Some (Inr st')" "tarjan_inv g st'" "stack st' = []"
      "dom (index st) \<union> set vs \<subseteq> dom (index st')" by auto
    then show ?thesis using True by auto
  next
    case False
    have vV: "v \<in> vertices g" using Cons.prems(3) by simp
    from visit_correct [OF fin closed refl Cons.prems(1) False vV] obtain st1 where
      run: "strongconnect_run g (Visit v) st = Some (Inr st1)"
      and post: "visit_post g v st st1" by blast
    have inv1: "tarjan_inv g st1" and g1: "grows st st1" and v1: "v \<in> dom (index st1)"
      using post by (auto simp: visit_post_def)
    have s1: "stack st1 = []" using post Cons.prems(2) by (auto simp: visit_post_def)
    from Cons.IH [OF inv1 s1] Cons.prems(3) obtain st' where
      r: "find_sccs_loop g vs st1 = Some (Inr st')" "tarjan_inv g st'" "stack st' = []"
      and d: "dom (index st1) \<union> set vs \<subseteq> dom (index st')" by auto
    have "dom (index st) \<subseteq> dom (index st1)" using g1 by (simp add: grows_def)
    then have "dom (index st) \<union> set (v # vs) \<subseteq> dom (index st')"
      using d v1 by (simp add: subset_iff)
    then show ?thesis using r False run by (simp add: strongconnect_def)
  qed
qed

lemma nodes_identify_attractors:
  "map nodes (identify_attractors g comps) = map nodes comps"
  by (simp add: identify_attractors_def comp_def)

text \<open>
  Claim C7. For every finite graph whose edges lead to vertices of the graph (as in every
  graph built by \<open>add_vertex\<close> and \<open>add_edge\<close>) and every order in which the vertex set is
  iterated, \<open>find_sccs\<close> returns, and the components it returns are non-empty, pairwise
  disjoint, and have the vertex set as their union: every vertex lies in exactly one of
  them.
\<close>

theorem find_sccs_partition:
  assumes "set order = vertices g" and "graph_closed g"
  shows "\<exists>comps. find_sccs g order = Some (Inr comps)
           \<and> (\<forall>c \<in> set comps. nodes c \<noteq> {})
           \<and> (\<forall>i j. i < length comps \<and> j < length comps \<and> i \<noteq> j
                  \<longrightarrow> nodes (comps ! i) \<inter> nodes (comps ! j) = {})
           \<and> \<Union> (nodes ` set comps) = vertices g
           \<and> (\<forall>v \<in> vertices g. \<exists>!i. i < length comps \<and> v \<in> nodes (comps ! i))"
proof -
  have fin: "finite (vertices g)" using assms(1) by (metis List.finite_set)
  from find_sccs_loop_correct [OF fin assms(2) tarjan_inv_init, of order] assms(1)
  obtain st where r: "find_sccs_loop g order tarjan_init = Some (Inr st)"
    and inv: "tarjan_inv g st" and s: "stack st = []" and d: "vertices g \<subseteq> dom (index st)"
    by (auto simp: tarjan_init_def)
  let ?cs = "identify_attractors g (components st)"
  have m: "map nodes ?cs = map nodes (components st)" by (rule nodes_identify_attractors)
  have len: "length ?cs = length (components st)" by (simp add: identify_attractors_def)
  have nth: "\<And>i. i < length ?cs \<Longrightarrow> nodes (?cs ! i) = nodes (components st ! i)"
    by (simp add: identify_attractors_def)
  have img: "nodes ` set ?cs = nodes ` set (components st)"
    using m by (metis list.set_map)
  have run: "find_sccs g order = Some (Inr ?cs)" by (simp add: find_sccs_def r)
  have ne: "\<forall>c \<in> set ?cs. nodes c \<noteq> {}"
  proof
    fix c assume "c \<in> set ?cs"
    then have "nodes c \<in> nodes ` set (components st)" using img by blast
    then show "nodes c \<noteq> {}" using inv unfolding tarjan_inv_def by auto
  qed
  have sw: "sorted_wrt (\<lambda>c d. nodes c \<inter> nodes d = {}) (components st)"
    using inv by (simp add: tarjan_inv_def)
  have dj: "\<forall>i j. i < length ?cs \<and> j < length ?cs \<and> i \<noteq> j
                  \<longrightarrow> nodes (?cs ! i) \<inter> nodes (?cs ! j) = {}"
  proof (intro allI impI)
    fix i j assume a: "i < length ?cs \<and> j < length ?cs \<and> i \<noteq> j"
    then consider "i < j" | "j < i" by linarith
    then have "nodes (components st ! i) \<inter> nodes (components st ! j) = {}"
    proof cases
      case 1
      then show ?thesis using sw a len by (simp add: sorted_wrt_iff_nth_less)
    next
      case 2
      then have "nodes (components st ! j) \<inter> nodes (components st ! i) = {}"
        using sw a len by (simp add: sorted_wrt_iff_nth_less)
      then show ?thesis by blast
    qed
    then show "nodes (?cs ! i) \<inter> nodes (?cs ! j) = {}" using a nth by simp
  qed
  have un: "\<Union> (nodes ` set ?cs) = vertices g"
  proof -
    have "\<Union> (nodes ` set (components st)) = dom (index st)"
      using inv s unfolding tarjan_inv_def by simp
    moreover have "dom (index st) \<subseteq> vertices g" using inv by (simp add: tarjan_inv_def)
    ultimately show ?thesis using d img by auto
  qed
  have ex1: "\<forall>v \<in> vertices g. \<exists>!i. i < length ?cs \<and> v \<in> nodes (?cs ! i)"
  proof
    fix v assume "v \<in> vertices g"
    then obtain c where "c \<in> set ?cs" "v \<in> nodes c" using un by blast
    then obtain i where i: "i < length ?cs" "v \<in> nodes (?cs ! i)"
      by (metis in_set_conv_nth)
    show "\<exists>!i. i < length ?cs \<and> v \<in> nodes (?cs ! i)"
    proof (rule ex1I [of _ i])
      show "i < length ?cs \<and> v \<in> nodes (?cs ! i)" using i by simp
    next
      fix j assume j: "j < length ?cs \<and> v \<in> nodes (?cs ! j)"
      show "j = i"
      proof (rule ccontr)
        assume "j \<noteq> i"
        then have "nodes (?cs ! j) \<inter> nodes (?cs ! i) = {}" using dj i(1) j by blast
        then show False using i(2) j by blast
      qed
    qed
  qed
  show ?thesis using run ne dj un ex1 by blast
qed

theorem find_sccs_partition_witness:
  "set [from_str ''000'', from_str ''00'', from_str ''0|''] = vertices graph_cycle
   \<and> graph_closed graph_cycle
   \<and> find_sccs graph_cycle [from_str ''000'', from_str ''00'', from_str ''0|'']
       = Some (Inr [\<lparr>nodes = {from_str ''0|'', from_str ''00''}, is_attractor = True\<rparr>,
                    \<lparr>nodes = {from_str ''000''}, is_attractor = False\<rparr>])
   \<and> \<Union> (nodes ` set [\<lparr>nodes = {from_str ''0|'', from_str ''00''}, is_attractor = True\<rparr>,
                    \<lparr>nodes = {from_str ''000''}, is_attractor = False\<rparr>]) = vertices graph_cycle"
proof -
  have v: "set [from_str ''000'', from_str ''00'', from_str ''0|''] = vertices graph_cycle"
    by (auto simp: graph_cycle_eq)
  have c: "graph_closed graph_cycle" using built_graph_closed [OF built_graph_cycle] by simp
  show ?thesis
    using find_sccs_partition [OF v c] v c find_sccs_cycle by auto
qed

end
